theory Spec2Isabelle
  imports Main "HOL-Library.Word" "HOL-Library.Signed_Division"
begin

section \<open>The dummy plugin (plugins/dummy/dummy.go)\<close>

text \<open>
  A shallow embedding of the event source and field extractor of the dummy plugin.
  Go's \<open>uint64\<close> is \<open>64 word\<close> (arithmetic wraps), Go's \<open>int\<close> and \<open>int64\<close> are
  read through \<open>sint\<close> on a 64-bit platform, strings are byte lists. Mutation of the
  instance and of the shared random source is explicit state passing. Logging and the
  event timestamp (wall-clock time) have no influence on the values modelled here and
  are left out.
\<close>

unbundle bit_operations_syntax

type_synonym u64 = "64 word"

subsection \<open>Library functions the plugin calls\<close>

text \<open>
  \<open>strconv.Itoa\<close>: the decimal rendering of a signed integer, a minus sign in front of a
  negative number, no leading zero.
\<close>

definition digit_char :: "nat \<Rightarrow> char" where
  "digit_char d = ''0123456789'' ! d"

fun FormatUint :: "nat \<Rightarrow> string" where
  "FormatUint n =
     (if n < 10 then [digit_char n] else FormatUint (n div 10) @ [digit_char (n mod 10)])"

declare FormatUint.simps [simp del]

definition Itoa :: "int \<Rightarrow> string" where
  "Itoa i = (if i < 0 then CHR ''-'' # FormatUint (nat (- i)) else FormatUint (nat i))"

text \<open>
  \<open>strconv.Atoi\<close> on a 64-bit platform: an optional sign, then at least one decimal
  digit and nothing else; the magnitude is accumulated in a \<open>uint64\<close> and the scan stops
  with a range error as soon as it leaves that type; a value outside
  \<open>[-2^63, 2^63 - 1]\<close> is a range error as well.
\<close>

datatype NumError = ErrSyntax | ErrRange

definition is_digit :: "char \<Rightarrow> bool" where
  "is_digit c = (48 \<le> (of_char c :: nat) \<and> (of_char c :: nat) \<le> 57)"

definition digit_val :: "char \<Rightarrow> nat" where
  "digit_val c = of_char c - 48"

fun ParseUint_from :: "nat \<Rightarrow> string \<Rightarrow> NumError + nat" where
  "ParseUint_from acc [] = Inr acc"
| "ParseUint_from acc (c # cs) =
     (if \<not> is_digit c then Inl ErrSyntax
      else if 2 ^ 64 \<le> acc * 10 + digit_val c then Inl ErrRange
      else ParseUint_from (acc * 10 + digit_val c) cs)"

definition ParseUint :: "string \<Rightarrow> NumError + nat" where
  "ParseUint s = (if s = [] then Inl ErrSyntax else ParseUint_from 0 s)"

definition Atoi :: "string \<Rightarrow> NumError + int" where
  "Atoi s =
     (if s = [] then Inl ErrSyntax
      else
        let neg = (hd s = CHR ''-'');
            s1 = (if hd s = CHR ''+'' \<or> hd s = CHR ''-'' then tl s else s)
        in case ParseUint s1 of
             Inl e \<Rightarrow> Inl e
           | Inr un \<Rightarrow>
               if \<not> neg \<and> 2 ^ 63 \<le> un then Inl ErrRange
               else if neg \<and> 2 ^ 63 < un then Inl ErrRange
               else Inr (if neg then - int un else int un))"

text \<open>The number that a string of decimal digits denotes.\<close>

definition decimal :: "string \<Rightarrow> nat" where
  "decimal ds = foldl (\<lambda>a c. a * 10 + digit_val c) 0 ds"

text \<open>
  \<open>math/rand\<close>: the random source is a stream of numbers, and \<open>Int63\<close> takes the next
  one, reduced to a non-negative 63-bit integer. \<open>Int63n n\<close> panics when \<open>n \<le> 0\<close>. When \<open>n\<close> is a
  power of two it masks one draw. Otherwise it draws again as long as the draw is
  above \<open>2^63 - 1 - 2^63 % n\<close> and returns the first other draw modulo \<open>n\<close>; on a stream
  that never offers such a draw the loop does not end, which is the result \<open>None\<close> of
  \<open>redraw\<close> and the result \<open>DrawNever\<close> of \<open>Int63n\<close>.
\<close>

type_synonym Rand = "nat \<Rightarrow> nat"

definition Int63 :: "Rand \<Rightarrow> int \<times> Rand" where
  "Int63 r = (int (r 0 mod 2 ^ 63), \<lambda>i. r (Suc i))"

partial_function (option) redraw :: "Rand \<Rightarrow> int \<Rightarrow> (int \<times> Rand) option" where
  "redraw r mx = (case Int63 r of (v, r') \<Rightarrow> if mx < v then redraw r' mx else Some (v, r'))"

datatype Drawn = Drawn int Rand | DrawPanic | DrawNever

definition Int63n :: "Rand \<Rightarrow> int \<Rightarrow> Drawn" where
  "Int63n r n =
     (if n \<le> 0 then DrawPanic
      else if n AND (n - 1) = 0 then (case Int63 r of (v, r') \<Rightarrow> Drawn (v AND (n - 1)) r')
      else (case redraw r (2 ^ 63 - 1 - 2 ^ 63 mod n) of
              None \<Rightarrow> DrawNever
            | Some (v, r') \<Rightarrow> Drawn (v mod n) r'))"

subsection \<open>Plugin and instance state\<close>

record MyPlugin =
  jitter :: u64

record MyInstance =
  initParams :: string
  maxEvents :: u64
  counter :: u64
  sample :: u64

subsection \<open>Init and Open\<close>

text \<open>
  The result of \<open>json.Unmarshal\<close> into a \<open>map[string]uint64\<close> is an input of the
  model: either a decoding error or the decoded map.
\<close>

datatype JsonError = JsonError

definition Init :: "string \<Rightarrow> JsonError + (string \<rightharpoonup> u64) \<Rightarrow> JsonError + MyPlugin" where
  "Init cfg decoded =
     (if cfg \<noteq> [] \<and> cfg \<noteq> ''{}'' then
        (case decoded of
           Inl e \<Rightarrow> Inl e
         | Inr obj \<Rightarrow>
             Inr \<lparr>jitter = (case obj ''jitter'' of Some j \<Rightarrow> j | None \<Rightarrow> 10)\<rparr>)
      else Inr \<lparr>jitter = 10\<rparr>)"

datatype OpenError = ParamsNotParsed string | NoStart string | NoMaxEvents string

definition Open :: "string \<Rightarrow> JsonError + (string \<rightharpoonup> u64) \<Rightarrow> OpenError + MyInstance" where
  "Open prms decoded =
     (case decoded of
        Inl e \<Rightarrow> Inl (ParamsNotParsed prms)
      | Inr obj \<Rightarrow>
          (case obj ''start'' of
             None \<Rightarrow> Inl (NoStart prms)
           | Some start \<Rightarrow>
               (case obj ''maxEvents'' of
                  None \<Rightarrow> Inl (NoMaxEvents prms)
                | Some mx \<Rightarrow>
                    Inr \<lparr>initParams = prms, maxEvents = mx, counter = 0, sample = start\<rparr>)))"

subsection \<open>NextBatch\<close>

text \<open>
  An event writer of the host either accepts the payload or fails. A call leaves a
  trace of the payloads it handed to writers, each with the outcome of the write.
\<close>

datatype EventWriter = Accepts | Fails

datatype Step = StepOk | StepWriteErr | StepPanic | StepNever

text \<open>
  The body of the loop of \<open>NextBatch\<close>, for one writer. \<open>StepPanic\<close> and \<open>StepNever\<close> are
  the two ways in which the draw does not return; the counter was incremented by then.
\<close>

definition produce :: "MyPlugin \<Rightarrow> EventWriter \<Rightarrow> MyInstance \<Rightarrow> Rand
    \<Rightarrow> MyInstance \<times> Rand \<times> (string \<times> bool) list \<times> Step" where
  "produce p evt m r =
     (let m1 = m\<lparr>counter := counter m + 1\<rparr> in
      case Int63n r (sint (jitter p + 1)) of
        DrawPanic \<Rightarrow> (m1, r, [], StepPanic)
      | DrawNever \<Rightarrow> (m1, r, [], StepNever)
      | Drawn v r' \<Rightarrow>
          let m2 = m1\<lparr>sample := sample m1 + (1 + word_of_int v)\<rparr>;
              str = Itoa (sint (sample m2))
          in (case evt of
                Fails \<Rightarrow> (m2, r', [(str, False)], StepWriteErr)
              | Accepts \<Rightarrow> (m2, r', [(str, True)], StepOk)))"

datatype Err = ErrEOF | ErrWrite

datatype Ret = Return nat "Err option" | Panic | Never

fun batch_loop :: "MyPlugin \<Rightarrow> EventWriter list \<Rightarrow> nat \<Rightarrow> MyInstance \<Rightarrow> Rand
    \<Rightarrow> MyInstance \<times> Rand \<times> (string \<times> bool) list \<times> Ret" where
  "batch_loop p [] n m r = (m, r, [], Return n None)"
| "batch_loop p (evt # evts) n m r =
     (if counter m < maxEvents m then
        (case produce p evt m r of
           (m', r', tr, StepPanic) \<Rightarrow> (m', r', tr, Panic)
         | (m', r', tr, StepNever) \<Rightarrow> (m', r', tr, Never)
         | (m', r', tr, StepWriteErr) \<Rightarrow> (m', r', tr, Return 0 (Some ErrWrite))
         | (m', r', tr, StepOk) \<Rightarrow>
             (case batch_loop p evts (n + 1) m' r' of
                (m'', r'', trs, ret) \<Rightarrow> (m'', r'', tr @ trs, ret)))
      else (m, r, [], Return n None))"

definition NextBatch :: "MyPlugin \<Rightarrow> EventWriter list \<Rightarrow> MyInstance \<Rightarrow> Rand
    \<Rightarrow> MyInstance \<times> Rand \<times> (string \<times> bool) list \<times> Ret" where
  "NextBatch p evts m r =
     (if maxEvents m \<le> counter m then (m, r, [], Return 0 (Some ErrEOF))
      else batch_loop p evts 0 m r)"

text \<open>
  The host calls \<open>NextBatch\<close> once per element of a list of writer batches. A panic ends
  the process and a call that never returns has no successor, so no further call is
  made after either. The result lists, per call, the instance after the call, the trace
  of writes and what the call returned.
\<close>

fun calls :: "MyPlugin \<Rightarrow> EventWriter list list \<Rightarrow> MyInstance \<Rightarrow> Rand
    \<Rightarrow> (MyInstance \<times> (string \<times> bool) list \<times> Ret) list" where
  "calls p [] m r = []"
| "calls p (evts # rest) m r =
     (case NextBatch p evts m r of
        (m', r', tr, Panic) \<Rightarrow> [(m', tr, Panic)]
      | (m', r', tr, Never) \<Rightarrow> [(m', tr, Never)]
      | (m', r', tr, Return n e) \<Rightarrow> (m', tr, Return n e) # calls p rest m' r')"

text \<open>
  The number of events a call reports to the host, the total over a sequence of calls,
  the writes of a sequence of calls in the order they were made, and the payloads of
  the events reported to the host: a call that returns \<open>n\<close> reports the events of its
  first \<open>n\<close> writers.
\<close>

fun returned :: "Ret \<Rightarrow> nat" where
  "returned (Return n e) = n"
| "returned Panic = 0"
| "returned Never = 0"

definition total_returned :: "(MyInstance \<times> (string \<times> bool) list \<times> Ret) list \<Rightarrow> nat" where
  "total_returned cs = sum_list (map (\<lambda>(m, tr, ret). returned ret) cs)"

definition all_writes :: "(MyInstance \<times> (string \<times> bool) list \<times> Ret) list
    \<Rightarrow> (string \<times> bool) list" where
  "all_writes cs = concat (map (\<lambda>(m, tr, ret). tr) cs)"

definition reported :: "(MyInstance \<times> (string \<times> bool) list \<times> Ret) list \<Rightarrow> string list" where
  "reported cs = concat (map (\<lambda>(m, tr, ret). take (returned ret) (map fst tr)) cs)"

subsection \<open>String\<close>

datatype ReadError = ReadError

definition String_of_event :: "ReadError + string \<Rightarrow> ReadError + string" where
  \<open>String_of_event inp =
     (case inp of
        Inl err \<Rightarrow> Inl err
      | Inr evtStr \<Rightarrow> Inr (''{"sample": "'' @ evtStr @ ''"}''))\<close>

subsection \<open>Extract\<close>

record ExtractRequest =
  FieldID :: u64
  Field :: string
  Arg :: string

datatype Value = U64 u64 | Str string

datatype ExtractError = ErrRead ReadError | ErrNum NumError | Errorf string

datatype ExtractResult = SetValue Value | Failed ExtractError | DivideByZeroPanic

definition Extract :: "ExtractRequest \<Rightarrow> ReadError + string \<Rightarrow> ExtractResult" where
  "Extract req evt =
     (case evt of
        Inl err \<Rightarrow> Failed (ErrRead err)
      | Inr evtStr \<Rightarrow>
          (case Atoi evtStr of
             Inl err \<Rightarrow> Failed (ErrNum err)
           | Inr evtVal \<Rightarrow>
               if FieldID req = 0 then
                 (case Atoi (Arg req) of
                    Inl err \<Rightarrow>
                      Failed (Errorf (''argument to dummy.divisible '' @ Arg req
                                      @ '' could not be converted to number''))
                  | Inr divisor \<Rightarrow>
                      if divisor = 0 then DivideByZeroPanic
                      else if evtVal smod divisor = 0 then SetValue (U64 1)
                      else SetValue (U64 0))
               else if FieldID req = 1 then SetValue (U64 (word_of_int evtVal))
               else if FieldID req = 2 then SetValue (Str evtStr)
               else Failed (Errorf (''no known field: '' @ Field req))))"

section \<open>Decimal rendering and parsing\<close>

lemma foldl_decimal_mono: "acc \<le> foldl (\<lambda>a c. a * 10 + digit_val c) acc cs"
proof (induction cs arbitrary: acc)
  case Nil
  show ?case by simp
next
  case (Cons c cs)
  have "acc \<le> acc * 10 + digit_val c" by simp
  also have "\<dots> \<le> foldl (\<lambda>a c. a * 10 + digit_val c) (acc * 10 + digit_val c) cs"
    by (rule Cons.IH)
  finally show ?case by simp
qed

lemma ParseUint_from_digits:
  assumes "list_all is_digit ds" and "acc < 2 ^ 64"
  shows "ParseUint_from acc ds =
     (if foldl (\<lambda>a c. a * 10 + digit_val c) acc ds < 2 ^ 64
      then Inr (foldl (\<lambda>a c. a * 10 + digit_val c) acc ds) else Inl ErrRange)"
  using assms
proof (induction ds arbitrary: acc)
  case Nil
  then show ?case by simp
next
  case (Cons c cs)
  then have c: "is_digit c" and cs: "list_all is_digit cs" by simp_all
  show ?case
  proof (cases "2 ^ 64 \<le> acc * 10 + digit_val c")
    case True
    with foldl_decimal_mono [of "acc * 10 + digit_val c" cs]
    have "\<not> foldl (\<lambda>a c. a * 10 + digit_val c) (acc * 10 + digit_val c) cs < 2 ^ 64"
      by linarith
    with True c show ?thesis by simp
  next
    case False
    then have "acc * 10 + digit_val c < 2 ^ 64" by simp
    from c False Cons.IH [OF cs this] show ?thesis by simp
  qed
qed

lemma ParseUint_digits:
  assumes "list_all is_digit ds" and "ds \<noteq> []"
  shows "ParseUint ds = (if decimal ds < 2 ^ 64 then Inr (decimal ds) else Inl ErrRange)"
  using assms by (simp add: ParseUint_def decimal_def ParseUint_from_digits)

lemma not_digit_sign: "\<not> is_digit CHR ''-''" "\<not> is_digit CHR ''+''"
  by (simp_all add: is_digit_def)

lemma digit_char_props:
  assumes "d < 10"
  shows "is_digit (digit_char d)" and "digit_val (digit_char d) = d"
proof -
  from assms have "d \<in> {0, 1, 2, 3, 4, 5, 6, 7, 8, 9}" by auto
  then show "is_digit (digit_char d)" and "digit_val (digit_char d) = d"
    by (auto simp: digit_char_def is_digit_def digit_val_def)
qed

lemma decimal_snoc: "decimal (ds @ [c]) = decimal ds * 10 + digit_val c"
  by (simp add: decimal_def)

lemma FormatUint_props:
  "list_all is_digit (FormatUint n) \<and> FormatUint n \<noteq> [] \<and> decimal (FormatUint n) = n"
proof (induction n rule: FormatUint.induct)
  case (1 n)
  show ?case
  proof (cases "n < 10")
    case True
    then show ?thesis
      by (simp add: FormatUint.simps [of n] digit_char_props decimal_def)
  next
    case False
    have "n mod 10 < 10" by simp
    note d = digit_char_props [OF this]
    from False "1.IH" d show ?thesis
      by (simp add: FormatUint.simps [of n] decimal_snoc)
  qed
qed

lemma FormatUint_hd_digit: "is_digit (hd (FormatUint n))"
  using FormatUint_props [of n] by (cases "FormatUint n") simp_all

lemma FormatUint_hd_not_sign: "hd (FormatUint n) \<noteq> CHR ''-''" "hd (FormatUint n) \<noteq> CHR ''+''"
  using FormatUint_hd_digit [of n] not_digit_sign by metis+

lemma ParseUint_FormatUint:
  assumes "n < 2 ^ 64"
  shows "ParseUint (FormatUint n) = Inr n"
  using assms FormatUint_props [of n] by (simp add: ParseUint_digits)

lemma Atoi_Itoa:
  assumes "- (2 ^ 63) \<le> i" and "i < 2 ^ 63"
  shows "Atoi (Itoa i) = Inr i"
proof (cases "i < 0")
  case True
  define n where "n = nat (- i)"
  from True assms have n: "n \<le> 2 ^ 63" "i = - int n" unfolding n_def by simp_all
  then have "n < 2 ^ 64" by simp
  note p = ParseUint_FormatUint [OF this]
  have "Itoa i = CHR ''-'' # FormatUint n" using True by (simp add: Itoa_def n_def)
  then show ?thesis using p n by (simp add: Atoi_def)
next
  case False
  define n where "n = nat i"
  from False assms have n: "n < 2 ^ 63" "i = int n" unfolding n_def by simp_all
  then have "n < 2 ^ 64" by simp
  note p = ParseUint_FormatUint [OF this]
  have e: "Itoa i = FormatUint n" using False by (simp add: Itoa_def n_def)
  have ne: "FormatUint n \<noteq> []" using FormatUint_props [of n] by simp
  show ?thesis unfolding e using p n ne FormatUint_hd_not_sign [of n] by (simp add: Atoi_def)
qed

lemma Atoi_range:
  assumes "Atoi s = Inr v"
  shows "- (2 ^ 63) \<le> v \<and> v < 2 ^ 63"
  using assms by (auto simp: Atoi_def Let_def split: if_splits sum.splits)

lemma FormatUint_no_leading_zero: "n \<noteq> 0 \<Longrightarrow> hd (FormatUint n) \<noteq> CHR ''0''"
proof (induction n rule: FormatUint.induct)
  case (1 n)
  show ?case
  proof (cases "n < 10")
    case True
    with "1.prems" have "n \<in> {1, 2, 3, 4, 5, 6, 7, 8, 9}" by auto
    then show ?thesis by (auto simp: FormatUint.simps [of n] digit_char_def)
  next
    case False
    then have "n div 10 \<noteq> 0" by simp
    from "1.IH" [OF False this] False FormatUint_props [of "n div 10"] show ?thesis
      by (simp add: FormatUint.simps [of n])
  qed
qed

section \<open>Machine arithmetic and the production step\<close>

lemma sint_u64: "sint (w::u64) = (if uint w < 2 ^ 63 then uint w else uint w - 2 ^ 64)"
proof -
  have u: "uint w < 2 ^ 64" using uint_lt2p [of w] by simp
  have s1: "sint w = (uint w + 2 ^ 63) mod 2 ^ 64 - 2 ^ 63"
    by (simp add: sint_uint signed_take_bit_eq_take_bit_shift take_bit_eq_mod)
  show ?thesis
  proof (cases "uint w < 2 ^ 63")
    case True
    then have "(uint w + 2 ^ 63) mod 2 ^ 64 = uint w + 2 ^ 63"
      by (intro mod_pos_pos_trivial) simp_all
    with True show ?thesis by (simp add: s1)
  next
    case False
    have "(uint w + 2 ^ 63) mod 2 ^ 64 = (uint w + 2 ^ 63 - 2 ^ 64) mod 2 ^ 64"
      by (simp only: minus_mod_self2)
    also have "\<dots> = uint w + 2 ^ 63 - 2 ^ 64"
      by (rule mod_pos_pos_trivial) (use False u in simp_all)
    finally show ?thesis using False by (simp add: s1)
  qed
qed

lemma unat_u64_less: "unat (w::u64) < 2 ^ 64"
  using unsigned_less [of w, where 'a=nat] by simp

lemma unat_of_nat_u64: "n < 2 ^ 64 \<Longrightarrow> unat (word_of_nat n :: u64) = n"
  by (simp add: unat_of_nat)

lemma sint_pos_iff: "0 < sint (w::u64) \<longleftrightarrow> 0 < unat w \<and> unat w < 2 ^ 63"
proof -
  have u: "unat w < 2 ^ 64" by (rule unat_u64_less)
  have n: "uint w = int (unat w)" by simp
  show ?thesis
    unfolding sint_u64 n using u by (simp del: of_nat_unat)
qed

lemma unat_succ_mod: "unat ((j::u64) + 1) = (unat j + 1) mod 2 ^ 64"
  by (simp add: unat_word_ariths)

lemma jitter_ok_iff: "0 < sint ((j::u64) + 1) \<longleftrightarrow> unat j + 1 < 2 ^ 63"
proof (cases "unat j + 1 = 2 ^ 64")
  case True
  then show ?thesis unfolding sint_pos_iff unat_succ_mod by simp
next
  case False
  with unat_u64_less [of j] have "unat j + 1 < 2 ^ 64" by linarith
  then have "(unat j + 1) mod 2 ^ 64 = unat j + 1" by (rule mod_less)
  then show ?thesis unfolding sint_pos_iff unat_succ_mod by simp
qed

lemma sint_jitter_succ:
  assumes "unat (j::u64) + 1 < 2 ^ 63"
  shows "sint (j + 1) = int (unat j + 1)"
proof -
  from assms have "unat j + 1 < 2 ^ 64" by simp
  then have "(unat j + 1) mod 2 ^ 64 = unat j + 1" by (rule mod_less)
  then have e: "unat (j + 1) = unat j + 1" by (simp only: unat_succ_mod)
  have n: "uint (j + 1) = int (unat (j + 1))" by simp
  show ?thesis
    unfolding sint_u64 n e using assms by (simp del: of_nat_unat)
qed

lemma Int63_nonneg: "Int63 r = (v, r') \<Longrightarrow> 0 \<le> v \<and> v < 2 ^ 63"
  by (auto simp: Int63_def)

lemma Int63n_panic_iff: "Int63n r n = DrawPanic \<longleftrightarrow> n \<le> 0"
  by (simp add: Int63n_def split: prod.splits option.splits)

lemma Int63n_range:
  assumes "Int63n r n = Drawn v r'"
  shows "0 \<le> v \<and> v < n"
proof (cases "n \<le> 0")
  case True
  with assms show ?thesis by (simp add: Int63n_def)
next
  case False
  then have n: "0 < n" by simp
  show ?thesis
  proof (cases "n AND (n - 1) = 0")
    case True
    with assms n have v: "v = int (r 0 mod 2 ^ 63) AND (n - 1)"
      by (simp add: Int63n_def Int63_def)
    have "0 \<le> n - 1" using n by simp
    then have "int (r 0 mod 2 ^ 63) AND (n - 1) \<le> n - 1" by (rule AND_upper2)
    moreover have "0 \<le> int (r 0 mod 2 ^ 63) AND (n - 1)" by simp
    ultimately show ?thesis unfolding v by simp
  next
    case False
    with assms n obtain v0 where "v = v0 mod n"
      by (auto simp: Int63n_def split: option.splits)
    with n show ?thesis by simp
  qed
qed

lemma and_pred_nat:
  assumes "(Suc J) AND J = 0" and "k \<le> J"
  shows "k AND J = k"
  using assms
proof (induction J arbitrary: k rule: less_induct)
  case (less J)
  show ?case
  proof (cases "even J")
    case True
    then have "Suc J div 2 = J div 2" by simp
    with True have "Suc J AND J = 2 * (J div 2)"
      by (simp add: and_nat_rec [of "Suc J" J])
    with True less.prems have "J = 0" by simp
    with less.prems show ?thesis by simp
  next
    case False
    define j where "j = J div 2"
    from False have J: "J = Suc (2 * j)" unfolding j_def by (simp add: odd_two_times_div_two_succ)
    then have lt: "j < J" by simp
    have "Suc J div 2 = Suc j" unfolding J by simp
    with False have "Suc J AND J = 2 * (Suc j AND j)"
      by (simp add: and_nat_rec [of "Suc J" J] j_def)
    with less.prems have z: "Suc j AND j = 0" by simp
    from less.prems J have "k div 2 \<le> j" by simp
    from less.IH [OF lt z this] have h: "(k div 2) AND j = k div 2" .
    have "k AND J = of_bool (odd k) + 2 * ((k div 2) AND j)"
      using False by (simp add: and_nat_rec [of k J] j_def)
    also have "\<dots> = k" unfolding h by simp
    finally show ?thesis .
  qed
qed

lemma mask_keeps_small:
  assumes "(int J + 1) AND int J = 0" and "k \<le> J"
  shows "int k AND int J = int k"
proof -
  have "int (Suc J AND J) = int (Suc J) AND int J" by (rule of_nat_and_eq)
  with assms(1) have "Suc J AND J = 0" by (simp add: add.commute)
  from and_pred_nat [OF this assms(2)] have "int (k AND J) = int k" by simp
  then show ?thesis by (simp only: of_nat_and_eq)
qed

lemma max_accepts_small:
  assumes "0 < n" and "n < 2 ^ 63" and "k < n"
  shows "k \<le> 2 ^ 63 - 1 - 2 ^ 63 mod (n::int)"
proof -
  have "2 ^ 63 mod n = (2 ^ 63 - n) mod n" by (simp only: minus_mod_self2)
  also have "\<dots> \<le> 2 ^ 63 - n"
    by (rule zmod_le_nonneg_dividend) (use assms(2) in simp)
  finally have "2 ^ 63 mod n \<le> 2 ^ 63 - n" .
  with assms(3) show ?thesis by linarith
qed

lemma redraw_accepts:
  assumes "int (r 0 mod 2 ^ 63) \<le> mx"
  shows "redraw r mx = Some (int (r 0 mod 2 ^ 63), \<lambda>i. r (Suc i))"
  using assms by (subst redraw.simps) (simp add: Int63_def)

lemma Int63n_reaches:
  assumes "0 < n" and "n < 2 ^ 63" and "k < nat n"
  shows "Int63n (\<lambda>i. k) n = Drawn (int k) (\<lambda>i. k)"
proof -
  from assms(1,3) have kn: "int k < n" by linarith
  with assms(2) have "int k < 2 ^ 63" by linarith
  then have k63: "k < 2 ^ 63" by simp
  then have km: "k mod 2 ^ 63 = k" by simp
  show ?thesis
  proof (cases "n AND (n - 1) = 0")
    case True
    define J where "J = nat (n - 1)"
    from assms(1) have n: "n = int J + 1" "n - 1 = int J" unfolding J_def by simp_all
    from assms(3) have "k \<le> J" unfolding J_def by linarith
    from mask_keeps_small [OF True [unfolded n(2), unfolded n(1)] this]
    have "int k AND (n - 1) = int k" unfolding n(2) .
    with True assms(1) km show ?thesis by (simp add: Int63n_def Int63_def)
  next
    case False
    from max_accepts_small [OF assms(1,2) kn]
    have "int ((\<lambda>i. k) 0 mod 2 ^ 63) \<le> 2 ^ 63 - 1 - 2 ^ 63 mod n" by (simp add: km)
    from redraw_accepts [OF this] False assms(1) kn km show ?thesis
      by (simp add: Int63n_def)
  qed
qed

lemma Int63n_reaches_succ:
  assumes "u + 1 < 2 ^ 63" and "k \<le> u"
  shows "Int63n (\<lambda>i. k) (int (u + 1)) = Drawn (int k) (\<lambda>i. k)"
  by (rule Int63n_reaches) (use assms in simp_all)

lemma Int63n_jitter_panic:
  assumes "\<not> unat (j::u64) + 1 < 2 ^ 63"
  shows "Int63n r (sint (j + 1)) = DrawPanic"
  using assms jitter_ok_iff [of j] by (simp add: Int63n_def)

lemma Int63n_jitter_cases:
  assumes "unat (j::u64) + 1 < 2 ^ 63"
  shows "Int63n r (sint (j + 1)) = DrawNever
       \<or> (\<exists>d r'. d \<le> unat j \<and> Int63n r (sint (j + 1)) = Drawn (int d) r')"
proof (cases "Int63n r (sint (j + 1))")
  case DrawNever
  then show ?thesis by simp
next
  case DrawPanic
  then have "sint (j + 1) \<le> 0" by (simp only: Int63n_panic_iff)
  with jitter_ok_iff [of j] assms show ?thesis by simp
next
  case (Drawn v r')
  define u where "u = unat j"
  from Int63n_range [OF Drawn] have "0 \<le> v \<and> v < int (unat j + 1)"
    unfolding sint_jitter_succ [OF assms] .
  then have v: "0 \<le> v" "v < int (u + 1)" unfolding u_def by blast+
  define d where "d = nat v"
  from v have "d \<le> u" "v = int d" unfolding d_def by simp_all
  with Drawn show ?thesis unfolding u_def by blast
qed

lemma Int63n_one: "Int63n r 1 = Drawn 0 (\<lambda>i. r (Suc i))"
  by (simp add: Int63n_def Int63_def)

lemma produce_panic:
  assumes "\<not> unat (jitter p) + 1 < 2 ^ 63"
  shows "produce p evt m r = (m\<lparr>counter := counter m + 1\<rparr>, r, [], StepPanic)"
  by (simp add: produce_def Int63n_jitter_panic [OF assms])

lemma produce_Drawn:
  assumes "Int63n r (sint (jitter p + 1)) = Drawn (int d) r'"
  shows "produce p evt m r =
     (m\<lparr>counter := counter m + 1, sample := sample m + (1 + word_of_nat d)\<rparr>, r',
      [(Itoa (sint (sample m + (1 + word_of_nat d))), evt = Accepts)],
      if evt = Accepts then StepOk else StepWriteErr)"
  by (cases evt) (simp_all add: produce_def assms)

lemma produce_cases:
  assumes "unat (jitter p) + 1 < 2 ^ 63"
  shows "produce p evt m r = (m\<lparr>counter := counter m + 1\<rparr>, r, [], StepNever)
       \<or> (\<exists>d r'. d \<le> unat (jitter p)
            \<and> produce p evt m r =
                (m\<lparr>counter := counter m + 1, sample := sample m + (1 + word_of_nat d)\<rparr>, r',
                 [(Itoa (sint (sample m + (1 + word_of_nat d))), evt = Accepts)],
                 if evt = Accepts then StepOk else StepWriteErr))"
  using Int63n_jitter_cases [OF assms, of r]
proof
  assume "Int63n r (sint (jitter p + 1)) = DrawNever"
  then show ?thesis by (simp add: produce_def)
next
  assume "\<exists>d r'. d \<le> unat (jitter p) \<and> Int63n r (sint (jitter p + 1)) = Drawn (int d) r'"
  then obtain d r' where d: "d \<le> unat (jitter p)"
    and "Int63n r (sint (jitter p + 1)) = Drawn (int d) r'" by blast
  from produce_Drawn [OF this(2)] d show ?thesis by blast
qed

lemma produce_zero_jitter:
  assumes "jitter p = 0"
  shows "produce p evt m r =
     (m\<lparr>counter := counter m + 1, sample := sample m + 1\<rparr>, \<lambda>i. r (Suc i),
      [(Itoa (sint (sample m + 1)), evt = Accepts)],
      if evt = Accepts then StepOk else StepWriteErr)"
proof -
  have "Int63n r (sint (jitter p + 1)) = Drawn (int 0) (\<lambda>i. r (Suc i))"
    using assms by (simp add: Int63n_one)
  from produce_Drawn [OF this] show ?thesis by simp
qed

lemma unat_increment:
  assumes "unat (j::u64) + 1 < 2 ^ 63" and "d \<le> unat j"
  shows "unat (1 + word_of_nat d :: u64) = 1 + d"
proof -
  from assms have "1 + d < 2 ^ 64" by simp
  then have "unat (word_of_nat (1 + d) :: u64) = 1 + d" by (rule unat_of_nat_u64)
  then show ?thesis by simp
qed


section \<open>Invariants of the production loop\<close>

lemma produce_fields:
  assumes "produce p evt m r = (m1, r1, tr1, st)"
  shows "counter m1 = counter m + 1" and "maxEvents m1 = maxEvents m"
    and "initParams m1 = initParams m"
  using assms
  by (auto simp: produce_def Let_def split: Drawn.splits EventWriter.splits)

lemma produce_keeps_bound:
  assumes "produce p evt m r = (m1, r1, tr1, st)" and "counter m < maxEvents m"
  shows "counter m1 \<le> maxEvents m1"
  using assms produce_fields [OF assms(1)] by (simp add: inc_le)

lemma unat_counter_succ:
  assumes "counter m < maxEvents m"
  shows "unat (counter m + 1) = unat (counter m) + 1"
proof -
  from assms have "unat (counter m) < unat (maxEvents m)" by (simp add: word_less_nat_alt)
  with unat_u64_less [of "maxEvents m"] have "unat (counter m) + 1 < 2 ^ 64" by simp
  then have "(unat (counter m) + 1) mod 2 ^ 64 = unat (counter m) + 1" by (rule mod_less)
  then show ?thesis by (simp only: unat_succ_mod)
qed

lemma batch_loop_inv:
  assumes "batch_loop p evts n m r = (m', r', tr, ret)" and "counter m \<le> maxEvents m"
  shows "counter m' \<le> maxEvents m' \<and> maxEvents m' = maxEvents m \<and> initParams m' = initParams m
         \<and> unat (counter m) + length tr \<le> unat (counter m')"
  using assms
proof (induction evts arbitrary: n m r m' r' tr ret)
  case Nil
  then show ?case by simp
next
  case (Cons evt evts)
  show ?case
  proof (cases "counter m < maxEvents m")
    case False
    with Cons.prems show ?thesis by simp
  next
    case True
    obtain m1 r1 tr1 st where pr: "produce p evt m r = (m1, r1, tr1, st)"
      by (metis prod_cases4)
    note f = produce_fields [OF pr]
    have le: "counter m1 \<le> maxEvents m1" by (rule produce_keeps_bound [OF pr True])
    have c1: "unat (counter m1) = unat (counter m) + 1"
      using unat_counter_succ [OF True] f by simp
    have l1: "length tr1 \<le> 1"
      using pr by (auto simp: produce_def Let_def split: Drawn.splits EventWriter.splits)
    show ?thesis
    proof (cases st)
      case StepOk
      obtain m2 r2 tr2 ret2 where bl: "batch_loop p evts (n + 1) m1 r1 = (m2, r2, tr2, ret2)"
        by (metis prod_cases4)
      from Cons.prems(1) True pr StepOk bl have e: "m' = m2" "tr = tr1 @ tr2" by simp_all
      from Cons.IH [OF bl le] f c1 l1 show ?thesis unfolding e by auto
    next
      case StepWriteErr
      with Cons.prems(1) True pr have e: "m' = m1" "tr = tr1" by simp_all
      from le f c1 l1 show ?thesis unfolding e by auto
    next
      case StepPanic
      with Cons.prems(1) True pr have e: "m' = m1" "tr = tr1" by simp_all
      from le f c1 l1 show ?thesis unfolding e by auto
    next
      case StepNever
      with Cons.prems(1) True pr have e: "m' = m1" "tr = tr1" by simp_all
      from le f c1 l1 show ?thesis unfolding e by auto
    qed
  qed
qed

lemma NextBatch_inv:
  assumes "NextBatch p evts m r = (m', r', tr, ret)" and "counter m \<le> maxEvents m"
  shows "counter m' \<le> maxEvents m' \<and> maxEvents m' = maxEvents m \<and> initParams m' = initParams m
         \<and> unat (counter m) + length tr \<le> unat (counter m')"
proof (cases "maxEvents m \<le> counter m")
  case True
  with assms show ?thesis by (simp add: NextBatch_def)
next
  case False
  with assms(1) have "batch_loop p evts 0 m r = (m', r', tr, ret)" by (simp add: NextBatch_def)
  from batch_loop_inv [OF this assms(2)] show ?thesis .
qed

lemma NextBatch_EOF:
  assumes "maxEvents m \<le> counter m"
  shows "NextBatch p evts m r = (m, r, [], Return 0 (Some ErrEOF))"
  using assms by (simp add: NextBatch_def)

lemma calls_EOF:
  assumes "maxEvents m \<le> counter m"
  shows "calls p wss m r = map (\<lambda>evts. (m, [], Return 0 (Some ErrEOF))) wss"
  using assms by (induction wss) (simp_all add: NextBatch_EOF)

lemma calls_Cons_Return:
  assumes "NextBatch p evts m r = (m1, r1, tr1, Return k e)"
  shows "calls p (evts # rest) m r = (m1, tr1, Return k e) # calls p rest m1 r1"
  using assms by simp

lemma calls_Cons_Panic:
  assumes "NextBatch p evts m r = (m1, r1, tr1, Panic)"
  shows "calls p (evts # rest) m r = [(m1, tr1, Panic)]"
  using assms by simp

lemma calls_Cons_Never:
  assumes "NextBatch p evts m r = (m1, r1, tr1, Never)"
  shows "calls p (evts # rest) m r = [(m1, tr1, Never)]"
  using assms by simp

lemma calls_inv:
  assumes "counter m \<le> maxEvents m" and "(m', tr, ret) \<in> set (calls p wss m r)"
  shows "counter m' \<le> maxEvents m' \<and> maxEvents m' = maxEvents m \<and> initParams m' = initParams m"
  using assms
proof (induction wss arbitrary: m r)
  case Nil
  then show ?case by simp
next
  case (Cons evts wss)
  obtain m1 r1 tr1 ret1 where nb: "NextBatch p evts m r = (m1, r1, tr1, ret1)"
    by (metis prod_cases4)
  note i = NextBatch_inv [OF nb Cons.prems(1)]
  show ?case
  proof (cases ret1)
    case Panic
    with Cons.prems(2) nb i show ?thesis by auto
  next
    case Never
    with Cons.prems(2) nb i show ?thesis by auto
  next
    case (Return k e)
    with Cons.prems(2) nb have "(m', tr, ret) = (m1, tr1, ret1) \<or> (m', tr, ret) \<in> set (calls p wss m1 r1)"
      by simp
    then show ?thesis
    proof
      assume "(m', tr, ret) = (m1, tr1, ret1)"
      with i show ?thesis by auto
    next
      assume "(m', tr, ret) \<in> set (calls p wss m1 r1)"
      from Cons.IH [OF _ this] i show ?thesis by auto
    qed
  qed
qed


section \<open>Field extraction\<close>

lemma smod_zero_iff: "(v::int) smod d = 0 \<longleftrightarrow> d dvd v"
proof -
  have "v smod d = 0 \<longleftrightarrow> v = 0 \<or> \<bar>v\<bar> mod \<bar>d\<bar> = 0"
    by (auto simp: smod_int_alt_def sgn_if)
  also have "\<dots> \<longleftrightarrow> \<bar>v\<bar> mod \<bar>d\<bar> = 0" by auto
  also have "\<dots> \<longleftrightarrow> \<bar>d\<bar> dvd \<bar>v\<bar>" by (simp only: dvd_eq_mod_eq_0)
  also have "\<dots> \<longleftrightarrow> d dvd v" by simp
  finally show ?thesis .
qed

lemma uint_word_of_int_nonneg:
  assumes "0 \<le> v" and "v < 2 ^ 64"
  shows "uint (word_of_int v :: u64) = v"
  using assms by (simp add: uint_word_of_int_eq take_bit_eq_mod)

lemma uint_word_of_int_neg:
  assumes "v < 0" and "- (2 ^ 64) \<le> v"
  shows "uint (word_of_int v :: u64) = 2 ^ 64 + v"
proof -
  have "v mod 2 ^ 64 = (v + 2 ^ 64) mod 2 ^ 64" by (simp only: mod_add_self2)
  also have "\<dots> = v + 2 ^ 64" by (rule mod_pos_pos_trivial) (use assms in simp_all)
  finally show ?thesis by (simp add: uint_word_of_int_eq take_bit_eq_mod)
qed

lemma Atoi_lits:
  "Atoi ''42'' = Inr 42" "Atoi ''7'' = Inr 7" "Atoi ''5'' = Inr 5" "Atoi ''0'' = Inr 0"
  "Atoi ''-5'' = Inr (- 5)" "Atoi ''18446744073709551615'' = Inl ErrRange"
  by (simp_all add: Atoi_def ParseUint_def is_digit_def digit_val_def)

text \<open>
  C5. On a payload that \<open>Atoi\<close> decodes to \<open>v\<close>: field 0 with an argument that decodes to
  a divisor \<open>d\<close> other than zero yields the \<open>uint64\<close> 1 when \<open>d\<close> divides \<open>v\<close> and 0
  otherwise; field 1 yields \<open>v\<close> converted to \<open>uint64\<close>, which is \<open>v\<close> itself when \<open>v\<close> is
  not negative; field 2 yields the payload string unchanged; any other field id fails
  with a message that names the field.
\<close>

theorem Extract_dispatch:
  assumes "Atoi payload = Inr v"
  shows "(Atoi arg = Inr d \<and> d \<noteq> 0 \<longrightarrow>
            Extract \<lparr>FieldID = 0, Field = f, Arg = arg\<rparr> (Inr payload)
              = SetValue (U64 (if v mod d = 0 then 1 else 0)))
       \<and> Extract \<lparr>FieldID = 1, Field = f, Arg = arg\<rparr> (Inr payload) = SetValue (U64 (word_of_int v))
       \<and> (0 \<le> v \<longrightarrow> uint (word_of_int v :: u64) = v)
       \<and> Extract \<lparr>FieldID = 2, Field = f, Arg = arg\<rparr> (Inr payload) = SetValue (Str payload)
       \<and> (fid \<noteq> 0 \<and> fid \<noteq> 1 \<and> fid \<noteq> 2 \<longrightarrow>
            Extract \<lparr>FieldID = fid, Field = f, Arg = arg\<rparr> (Inr payload)
              = Failed (Errorf (''no known field: '' @ f)))"
proof -
  from Atoi_range [OF assms] have "0 \<le> v \<longrightarrow> uint (word_of_int v :: u64) = v"
    by (auto intro: uint_word_of_int_nonneg)
  moreover have "Atoi arg = Inr d \<and> d \<noteq> 0 \<longrightarrow>
            Extract \<lparr>FieldID = 0, Field = f, Arg = arg\<rparr> (Inr payload)
              = SetValue (U64 (if v mod d = 0 then 1 else 0))"
    using assms by (simp add: Extract_def smod_zero_iff dvd_eq_mod_eq_0)
  ultimately show ?thesis using assms by (simp add: Extract_def)
qed

theorem Extract_dispatch_witness:
  "Atoi ''42'' = Inr 42 \<and> Atoi ''7'' = Inr 7 \<and> Atoi ''5'' = Inr 5
   \<and> Extract \<lparr>FieldID = 0, Field = ''dummy.divisible'', Arg = ''7''\<rparr> (Inr ''42'') = SetValue (U64 1)
   \<and> Extract \<lparr>FieldID = 0, Field = ''dummy.divisible'', Arg = ''5''\<rparr> (Inr ''42'') = SetValue (U64 0)
   \<and> Extract \<lparr>FieldID = 1, Field = ''dummy.value'', Arg = ''''\<rparr> (Inr ''42'') = SetValue (U64 42)
   \<and> Extract \<lparr>FieldID = 2, Field = ''dummy.strvalue'', Arg = ''''\<rparr> (Inr ''42'') = SetValue (Str ''42'')
   \<and> Extract \<lparr>FieldID = 99, Field = ''dummy.other'', Arg = ''''\<rparr> (Inr ''42'')
       = Failed (Errorf ''no known field: dummy.other'')"
  using Extract_dispatch [OF Atoi_lits(1), of "''7''" 7 "''dummy.divisible''" 99]
    Extract_dispatch [OF Atoi_lits(1), of "''5''" 5 "''dummy.divisible''" 99]
    Extract_dispatch [OF Atoi_lits(1), of "''''" 0 "''dummy.value''" 99]
    Extract_dispatch [OF Atoi_lits(1), of "''''" 0 "''dummy.strvalue''" 99]
    Extract_dispatch [OF Atoi_lits(1), of "''''" 0 "''dummy.other''" 99]
    Atoi_lits
  by simp

text \<open>
  C6. For field 0 with an argument that decodes to the divisor zero, \<open>Extract\<close> does not
  return an error: it reaches \<open>evtVal % divisor\<close> with \<open>divisor = 0\<close>, which is a run-time
  panic in Go.
\<close>

theorem Extract_zero_divisor:
  assumes "Atoi payload = Inr v" and "FieldID req = 0" and "Atoi (Arg req) = Inr 0"
  shows "Extract req (Inr payload) = DivideByZeroPanic"
  using assms by (simp add: Extract_def)

theorem Extract_zero_divisor_witness:
  "Atoi ''7'' = Inr 7
   \<and> FieldID \<lparr>FieldID = 0, Field = ''dummy.divisible'', Arg = ''0''\<rparr> = 0
   \<and> Atoi (Arg \<lparr>FieldID = 0, Field = ''dummy.divisible'', Arg = ''0''\<rparr>) = Inr 0
   \<and> Extract \<lparr>FieldID = 0, Field = ''dummy.divisible'', Arg = ''0''\<rparr> (Inr ''7'') = DivideByZeroPanic"
proof -
  have a: "Atoi ''7'' = Inr 7" by (rule Atoi_lits)
  have b: "FieldID \<lparr>FieldID = 0, Field = ''dummy.divisible'', Arg = ''0''\<rparr> = 0" by simp
  have c: "Atoi (Arg \<lparr>FieldID = 0, Field = ''dummy.divisible'', Arg = ''0''\<rparr>) = Inr 0"
    by (simp add: Atoi_lits)
  from Extract_zero_divisor [OF a b c] a b c show ?thesis by simp
qed

text \<open>
  C9. The payload is decoded as a signed 64-bit integer. A minus sign in front of decimal
  digits of value at most \<open>2^63\<close> is accepted, and field 1 then yields the negative value
  modulo \<open>2^64\<close>: \<open>-5\<close> gives \<open>2^64 - 5\<close>. A string of decimal digits whose value is
  \<open>2^63\<close> or more, such as \<open>18446744073709551615\<close>, is rejected with a range error
  whatever the field.
\<close>

theorem Extract_signed_decoding:
  "Extract \<lparr>FieldID = 1, Field = f, Arg = a\<rparr> (Inr ''-5'') = SetValue (U64 (word_of_int (- 5)))
   \<and> uint (word_of_int (- 5) :: u64) = 2 ^ 64 - 5
   \<and> list_all is_digit ''18446744073709551615''
   \<and> Extract req (Inr ''18446744073709551615'') = Failed (ErrNum ErrRange)
   \<and> (list_all is_digit ds \<and> ds \<noteq> [] \<and> 0 < decimal ds \<and> decimal ds \<le> 2 ^ 63 \<longrightarrow>
        Extract \<lparr>FieldID = 1, Field = f, Arg = a\<rparr> (Inr (CHR ''-'' # ds))
          = SetValue (U64 (word_of_int (- int (decimal ds))))
        \<and> uint (word_of_int (- int (decimal ds)) :: u64) = 2 ^ 64 - int (decimal ds))
   \<and> (list_all is_digit ds \<and> ds \<noteq> [] \<and> 2 ^ 63 \<le> decimal ds \<longrightarrow>
        Extract req (Inr ds) = Failed (ErrNum ErrRange))"
proof -
  have 1: "Extract \<lparr>FieldID = 1, Field = f, Arg = a\<rparr> (Inr ''-5'') = SetValue (U64 (word_of_int (- 5)))"
    by (simp add: Extract_def Atoi_lits)
  have 2: "uint (word_of_int (- 5) :: u64) = 2 ^ 64 - 5"
    using uint_word_of_int_neg [of "- 5"] by simp
  have 3: "list_all is_digit ''18446744073709551615''" by (simp add: is_digit_def)
  have 4: "Extract req (Inr ''18446744073709551615'') = Failed (ErrNum ErrRange)"
    by (simp add: Extract_def Atoi_lits)
  have 5: "Extract \<lparr>FieldID = 1, Field = f, Arg = a\<rparr> (Inr (CHR ''-'' # ds))
          = SetValue (U64 (word_of_int (- int (decimal ds))))
        \<and> uint (word_of_int (- int (decimal ds)) :: u64) = 2 ^ 64 - int (decimal ds)"
    if d: "list_all is_digit ds" "ds \<noteq> []" "0 < decimal ds" "decimal ds \<le> 2 ^ 63"
  proof -
    from d(4) have lt: "decimal ds < 2 ^ 64" by simp
    have "Atoi (CHR ''-'' # ds) = Inr (- int (decimal ds))"
      using d lt by (simp add: Atoi_def ParseUint_digits)
    then have "Extract \<lparr>FieldID = 1, Field = f, Arg = a\<rparr> (Inr (CHR ''-'' # ds))
          = SetValue (U64 (word_of_int (- int (decimal ds))))"
      by (simp add: Extract_def)
    moreover have "uint (word_of_int (- int (decimal ds)) :: u64) = 2 ^ 64 + - int (decimal ds)"
      by (rule uint_word_of_int_neg) (use d lt in simp_all)
    ultimately show ?thesis by simp
  qed
  have 6: "Extract req (Inr ds) = Failed (ErrNum ErrRange)"
    if d: "list_all is_digit ds" "ds \<noteq> []" "2 ^ 63 \<le> decimal ds"
  proof -
    from d(1,2) have "is_digit (hd ds)" by (cases ds) simp_all
    with not_digit_sign have "hd ds \<noteq> CHR ''-''" "hd ds \<noteq> CHR ''+''" by metis+
    then have "Atoi ds = Inl ErrRange"
      using d by (simp add: Atoi_def ParseUint_digits)
    then show ?thesis by (simp add: Extract_def)
  qed
  from 1 2 3 4 5 6 show ?thesis by blast
qed

theorem Extract_signed_decoding_witness:
  "list_all is_digit ''9223372036854775808'' \<and> decimal ''9223372036854775808'' = 2 ^ 63
   \<and> Extract \<lparr>FieldID = 1, Field = ''dummy.value'', Arg = ''''\<rparr> (Inr ''-9223372036854775808'')
       = SetValue (U64 (2 ^ 63))
   \<and> Extract \<lparr>FieldID = 1, Field = ''dummy.value'', Arg = ''''\<rparr> (Inr ''9223372036854775808'')
       = Failed (ErrNum ErrRange)"
proof -
  have a: "list_all is_digit ''9223372036854775808''" by (simp add: is_digit_def)
  have b: "decimal ''9223372036854775808'' = 2 ^ 63" by (simp add: decimal_def digit_val_def)
  have c: "''9223372036854775808'' \<noteq> []" by simp
  from Extract_signed_decoding [of "''dummy.value''" "''''" "\<lparr>FieldID = 1, Field = ''dummy.value'', Arg = ''''\<rparr>" "''9223372036854775808''"]
    a b c show ?thesis by simp
qed

section \<open>Event rendering\<close>

text \<open>
  C10. \<open>String\<close> fails exactly when reading the payload fails. Bytes that were read are
  not validated: whatever they are, the result is the text \<open>{"sample": "\<close>, the bytes as
  they are, and \<open>"}\<close>.
\<close>

theorem String_of_event_no_validation:
  \<open>((\<exists>err. String_of_event inp = Inl err) \<longleftrightarrow> (\<exists>err. inp = Inl err))
   \<and> String_of_event (Inr bytes) = Inr (''{"sample": "'' @ bytes @ ''"}'')\<close>
  by (cases inp) (simp_all add: String_of_event_def)

theorem String_of_event_no_validation_witness:
  \<open>String_of_event (Inr ''4x2 '') = Inr ''{"sample": "4x2 "}''
   \<and> String_of_event (Inl ReadError) = Inl ReadError\<close>
  using String_of_event_no_validation [of "Inl ReadError" "''4x2 ''"]
  by (simp add: String_of_event_def)


section \<open>The increment of a production step\<close>

lemma produce_completes:
  assumes "produce p evt m r = (m', r', tr, st)" and "st = StepOk \<or> st = StepWriteErr"
  shows "unat (jitter p) + 1 < 2 ^ 63
       \<and> (\<exists>d\<le>unat (jitter p).
            m' = m\<lparr>counter := counter m + 1, sample := sample m + (1 + word_of_nat d)\<rparr>
            \<and> tr = [(Itoa (sint (sample m + (1 + word_of_nat d))), evt = Accepts)])"
proof (cases "unat (jitter p) + 1 < 2 ^ 63")
  case False
  from assms show ?thesis unfolding produce_panic [OF False] by auto
next
  case True
  from produce_cases [OF True, of evt m r] assms True show ?thesis by auto
qed

text \<open>
  C3. A production step whose draw returns adds \<open>1 + d\<close> to the sample, where \<open>d\<close> is the
  value drawn, between 0 and the jitter bound \<open>J\<close>, both included. The addition is in
  \<open>uint64\<close>: the difference of successive samples modulo \<open>2^64\<close> lies in \<open>[1, J + 1]\<close>, and
  the new sample is the old one plus \<open>1 + d\<close> as integers as long as that sum stays
  below \<open>2^64\<close>. Every value of \<open>[0, J]\<close> is drawn from some random source.
\<close>

theorem produce_increment:
  assumes "produce p evt m r = (m', r', tr, st)" and "st = StepOk \<or> st = StepWriteErr"
  shows "1 \<le> unat (sample m' - sample m) \<and> unat (sample m' - sample m) \<le> unat (jitter p) + 1
       \<and> (\<exists>d\<le>unat (jitter p).
            sample m' = sample m + (1 + word_of_nat d)
            \<and> (unat (sample m) + (1 + d) < 2 ^ 64 \<longrightarrow>
                 unat (sample m') = unat (sample m) + (1 + d)))
       \<and> (\<forall>k\<le>unat (jitter p).
            sample (fst (produce p evt m (\<lambda>i. k))) - sample m = 1 + word_of_nat k)"
proof -
  from produce_completes [OF assms] obtain d where ok: "unat (jitter p) + 1 < 2 ^ 63"
    and d: "d \<le> unat (jitter p)"
    and m': "m' = m\<lparr>counter := counter m + 1, sample := sample m + (1 + word_of_nat d)\<rparr>"
    by blast
  note u = unat_increment [OF ok d]
  have diff: "sample m' - sample m = 1 + word_of_nat d" unfolding m' by simp
  have 1: "1 \<le> unat (sample m' - sample m) \<and> unat (sample m' - sample m) \<le> unat (jitter p) + 1"
    unfolding diff u using d by simp
  have s: "sample m' = sample m + (1 + word_of_nat d)" unfolding m' by simp
  have nw: "unat (sample m') = unat (sample m) + (1 + d)"
    if "unat (sample m) + (1 + d) < 2 ^ 64"
  proof -
    from that have "unat (sample m) + unat (1 + word_of_nat d :: u64) < 2 ^ LENGTH(64)"
      unfolding u by simp
    then have "unat (sample m + (1 + word_of_nat d)) = unat (sample m) + unat (1 + word_of_nat d :: u64)"
      by (simp only: unat_add_lem)
    then show ?thesis unfolding s u .
  qed
  have 3: "\<forall>k\<le>unat (jitter p).
      sample (fst (produce p evt m (\<lambda>i. k))) - sample m = 1 + word_of_nat k"
  proof (intro allI impI)
    fix k assume k: "k \<le> unat (jitter p)"
    have n: "sint (jitter p + 1) = int (unat (jitter p) + 1)" by (rule sint_jitter_succ [OF ok])
    have "Int63n (\<lambda>i. k) (int (unat (jitter p) + 1)) = Drawn (int k) (\<lambda>i. k)"
      by (rule Int63n_reaches_succ [OF ok k])
    then have "Int63n (\<lambda>i. k) (sint (jitter p + 1)) = Drawn (int k) (\<lambda>i. k)"
      by (simp only: n)
    from produce_Drawn [OF this, of evt m]
    show "sample (fst (produce p evt m (\<lambda>i. k))) - sample m = 1 + word_of_nat k" by simp
  qed
  from 1 d s nw 3 show ?thesis by blast
qed

theorem produce_increment_witness:
  "produce \<lparr>jitter = 2\<rparr> Accepts \<lparr>initParams = '''', maxEvents = 5, counter = 0, sample = 10\<rparr>
       (\<lambda>i. if i = 0 then 9223372036854775807 else 7)
     = (\<lparr>initParams = '''', maxEvents = 5, counter = 1, sample = 12\<rparr>, (\<lambda>i. 7),
        [(''12'', True)], StepOk)
   \<and> unat (12 - 10 :: u64) = 2
   \<and> unat (jitter \<lparr>jitter = 2\<rparr>) + 1 = 3
   \<and> unat (12 :: u64) = unat (10 :: u64) + 2"
proof -
  have h: "produce \<lparr>jitter = 2\<rparr> Accepts \<lparr>initParams = '''', maxEvents = 5, counter = 0, sample = 10\<rparr>
       (\<lambda>i. if i = 0 then 9223372036854775807 else 7)
     = (\<lparr>initParams = '''', maxEvents = 5, counter = 1, sample = 12\<rparr>, (\<lambda>i. 7),
        [(''12'', True)], StepOk)"
    by (simp add: produce_def Int63n_def Int63_def redraw.simps Itoa_def FormatUint.simps
        digit_char_def)
  have c: "StepOk = StepOk \<or> StepOk = StepWriteErr" by simp
  from produce_increment [OF h c] h show ?thesis by simp
qed

text \<open>
  Without jitter every difference should be 1, but a step from the sample \<open>2^64 - 1\<close>
  leads to the sample 0: as integers the difference is \<open>-(2^64 - 1)\<close>.
\<close>

theorem produce_increment_counterexample:
  "produce \<lparr>jitter = 0\<rparr> Accepts
       \<lparr>initParams = '''', maxEvents = 1, counter = 0, sample = 18446744073709551615\<rparr> (\<lambda>i. 0)
     = (\<lparr>initParams = '''', maxEvents = 1, counter = 1, sample = 0\<rparr>, (\<lambda>i. 0),
        [(''0'', True)], StepOk)
   \<and> uint (0 :: u64) - uint (18446744073709551615 :: u64) = - 18446744073709551615
   \<and> \<not> 1 \<le> uint (0 :: u64) - uint (18446744073709551615 :: u64)"
  by (simp add: produce_def Int63n_def Int63_def Itoa_def FormatUint.simps digit_char_def)


section \<open>The sequence of samples without jitter\<close>

lemma Itoa_sint_u64:
  "Itoa (sint (w::u64)) =
     (if unat w < 2 ^ 63 then FormatUint (unat w) else CHR ''-'' # FormatUint (2 ^ 64 - unat w))"
proof -
  define n where "n = unat w"
  have n: "uint w = int n" unfolding n_def by simp
  have u: "n < 2 ^ 64" unfolding n_def by (rule unat_u64_less)
  have s: "sint w = (if n < 2 ^ 63 then int n else int n - 2 ^ 64)"
    unfolding sint_u64 n by simp
  have "Itoa (sint w) = (if n < 2 ^ 63 then FormatUint n else CHR ''-'' # FormatUint (2 ^ 64 - n))"
  proof (cases "n < 2 ^ 63")
    case True
    then show ?thesis unfolding s by (simp add: Itoa_def)
  next
    case False
    have neg: "int n - 2 ^ 64 < 0" using u by simp
    have "nat (- (int n - 2 ^ 64)) = 2 ^ 64 - n" using u by simp
    with False neg show ?thesis unfolding s Itoa_def by simp
  qed
  then show ?thesis unfolding n_def .
qed

lemma batch_loop_zero_jitter:
  assumes "jitter p = 0" and "batch_loop p evts n m r = (m', r', tr, ret)"
  shows "(\<forall>i<length tr. fst (tr ! i) = Itoa (sint (sample m + word_of_nat (Suc i))))
         \<and> sample m' = sample m + word_of_nat (length tr)"
  using assms(2)
proof (induction evts arbitrary: n m r m' r' tr ret)
  case Nil
  then show ?case by simp
next
  case (Cons evt evts)
  show ?case
  proof (cases "counter m < maxEvents m")
    case False
    with Cons.prems show ?thesis by simp
  next
    case True
    note pz = produce_zero_jitter [OF assms(1), of evt m r]
    show ?thesis
    proof (cases evt)
      case Fails
      with Cons.prems True pz show ?thesis by auto
    next
      case Accepts
      define m1 where "m1 = m\<lparr>counter := counter m + 1, sample := sample m + 1\<rparr>"
      obtain m2 r2 tr2 ret2 where
        bl: "batch_loop p evts (n + 1) m1 (\<lambda>i. r (Suc i)) = (m2, r2, tr2, ret2)"
        by (metis prod_cases4)
      from Cons.prems True pz Accepts bl
      have e: "m' = m2" "tr = (Itoa (sint (sample m + 1)), True) # tr2"
        by (simp_all add: m1_def)
      note ih = Cons.IH [OF bl]
      have s1: "sample m1 = sample m + 1" by (simp add: m1_def)
      have "fst (tr ! i) = Itoa (sint (sample m + word_of_nat (Suc i)))" if "i < length tr" for i
      proof (cases i)
        case 0
        then show ?thesis unfolding e by simp
      next
        case (Suc j)
        with that have "j < length tr2" unfolding e by simp
        with ih have "fst (tr2 ! j) = Itoa (sint (sample m1 + word_of_nat (Suc j)))" by blast
        then show ?thesis unfolding e Suc s1 by (simp add: add.assoc)
      qed
      moreover have "sample m' = sample m + word_of_nat (length tr)"
        using ih unfolding e s1 by (simp add: add.assoc)
      ultimately show ?thesis by blast
    qed
  qed
qed

lemma NextBatch_zero_jitter:
  assumes "jitter p = 0" and "NextBatch p evts m r = (m', r', tr, ret)"
  shows "(\<forall>i<length tr. fst (tr ! i) = Itoa (sint (sample m + word_of_nat (Suc i))))
         \<and> sample m' = sample m + word_of_nat (length tr)"
proof (cases "maxEvents m \<le> counter m")
  case True
  with assms(2) show ?thesis by (simp add: NextBatch_def)
next
  case False
  with assms(2) have "batch_loop p evts 0 m r = (m', r', tr, ret)" by (simp add: NextBatch_def)
  from batch_loop_zero_jitter [OF assms(1) this] show ?thesis .
qed

lemma all_writes_Cons: "all_writes ((m, tr, ret) # cs) = tr @ all_writes cs"
  by (simp add: all_writes_def)

lemma calls_zero_jitter:
  assumes "jitter p = 0"
  shows "\<forall>i<length (all_writes (calls p wss m r)).
           fst (all_writes (calls p wss m r) ! i) = Itoa (sint (sample m + word_of_nat (Suc i)))"
proof (induction wss arbitrary: m r)
  case Nil
  show ?case by (simp add: all_writes_def)
next
  case (Cons evts wss)
  obtain m1 r1 tr1 ret1 where nb: "NextBatch p evts m r = (m1, r1, tr1, ret1)"
    by (metis prod_cases4)
  note z = NextBatch_zero_jitter [OF assms nb]
  show ?case
  proof (cases ret1)
    case Panic
    with nb have "all_writes (calls p (evts # wss) m r) = tr1" by (simp add: all_writes_def)
    with z show ?thesis by simp
  next
    case Never
    with nb have "all_writes (calls p (evts # wss) m r) = tr1" by (simp add: all_writes_def)
    with z show ?thesis by simp
  next
    case (Return k e)
    with nb have aw: "all_writes (calls p (evts # wss) m r) = tr1 @ all_writes (calls p wss m1 r1)"
      by (simp add: all_writes_Cons)
    show ?thesis
    proof (intro allI impI)
      fix i assume i: "i < length (all_writes (calls p (evts # wss) m r))"
      show "fst (all_writes (calls p (evts # wss) m r) ! i) = Itoa (sint (sample m + word_of_nat (Suc i)))"
      proof (cases "i < length tr1")
        case True
        with z show ?thesis unfolding aw by (simp add: nth_append)
      next
        case False
        define j where "j = i - length tr1"
        from False i have j: "j < length (all_writes (calls p wss m1 r1))" "i = length tr1 + j"
          unfolding aw j_def by simp_all
        from Cons.IH [of m1 r1] j(1)
        have "fst (all_writes (calls p wss m1 r1) ! j) = Itoa (sint (sample m1 + word_of_nat (Suc j)))"
          by blast
        with z False show ?thesis unfolding aw j(2) by (simp add: nth_append add_ac)
      qed
    qed
  qed
qed

lemma Open_fields:
  assumes "Open prms (Inr obj) = Inr m"
  shows "counter m = 0" and "obj ''start'' = Some (sample m)"
    and "obj ''maxEvents'' = Some (maxEvents m)" and "initParams m = prms"
  using assms by (auto simp: Open_def split: option.splits)

lemma Extract_value_of_rendering:
  "Extract \<lparr>FieldID = 1, Field = f, Arg = a\<rparr> (Inr (Itoa (sint (w::u64)))) = SetValue (U64 w)"
proof -
  have "- (2 ^ 63) \<le> sint w" using sint_greater_eq [of w] by simp
  moreover have "sint w < 2 ^ 63" using sint_less [of w] by simp
  ultimately have "Atoi (Itoa (sint w)) = Inr (sint w)" by (rule Atoi_Itoa)
  then show ?thesis by (simp add: Extract_def)
qed

lemma batch_loop_zero_jitter_accept:
  assumes "jitter p = 0" and "\<forall>w\<in>set evts. w = Accepts"
    and "batch_loop p evts n m r = (m', r', tr, ret)"
  shows "ret = Return (n + length tr) None"
  using assms(2,3)
proof (induction evts arbitrary: n m r m' r' tr ret)
  case Nil
  then show ?case by simp
next
  case (Cons evt evts)
  from Cons.prems(1) have acc: "evt = Accepts" "\<forall>w\<in>set evts. w = Accepts" by simp_all
  show ?case
  proof (cases "counter m < maxEvents m")
    case False
    with Cons.prems(2) show ?thesis by simp
  next
    case True
    note pz = produce_zero_jitter [OF assms(1), of evt m r]
    define m1 where "m1 = m\<lparr>counter := counter m + 1, sample := sample m + 1\<rparr>"
    obtain m2 r2 tr2 ret2 where
      bl: "batch_loop p evts (n + 1) m1 (\<lambda>i. r (Suc i)) = (m2, r2, tr2, ret2)"
      by (metis prod_cases4)
    from Cons.prems(2) True pz acc(1) bl
    have e: "ret = ret2" "tr = (Itoa (sint (sample m + 1)), True) # tr2"
      by (simp_all add: m1_def)
    from Cons.IH [OF acc(2) bl] show ?thesis unfolding e by simp
  qed
qed

lemma NextBatch_zero_jitter_accept:
  assumes "jitter p = 0" and "\<forall>w\<in>set evts. w = Accepts"
    and "NextBatch p evts m r = (m', r', tr, ret)"
  shows "\<exists>e. ret = Return (length tr) e"
proof (cases "maxEvents m \<le> counter m")
  case True
  with assms(3) show ?thesis by (auto simp: NextBatch_def)
next
  case False
  with assms(3) have "batch_loop p evts 0 m r = (m', r', tr, ret)" by (simp add: NextBatch_def)
  from batch_loop_zero_jitter_accept [OF assms(1,2) this] show ?thesis by simp
qed

lemma reported_Cons:
  "reported ((m, tr, ret) # cs) = take (returned ret) (map fst tr) @ reported cs"
  by (simp add: reported_def)

lemma total_returned_Cons: "total_returned ((m, tr, ret) # cs) = returned ret + total_returned cs"
  by (simp add: total_returned_def)

lemma calls_zero_jitter_accept:
  assumes "jitter p = 0" and "\<forall>evts\<in>set wss. \<forall>w\<in>set evts. w = Accepts"
  shows "reported (calls p wss m r) = map fst (all_writes (calls p wss m r))
       \<and> length (reported (calls p wss m r)) = total_returned (calls p wss m r)"
  using assms(2)
proof (induction wss arbitrary: m r)
  case Nil
  show ?case by (simp add: reported_def all_writes_def total_returned_def)
next
  case (Cons evts wss)
  from Cons.prems have acc: "\<forall>w\<in>set evts. w = Accepts"
    "\<forall>evts\<in>set wss. \<forall>w\<in>set evts. w = Accepts" by simp_all
  obtain m1 r1 tr1 ret1 where nb: "NextBatch p evts m r = (m1, r1, tr1, ret1)"
    by (metis prod_cases4)
  from NextBatch_zero_jitter_accept [OF assms(1) acc(1) nb] obtain e where
    ret1: "ret1 = Return (length tr1) e" by blast
  note cs = calls_Cons_Return [OF nb [unfolded ret1]]
  from Cons.IH [OF acc(2), of m1 r1]
  have a: "reported (calls p wss m1 r1) = map fst (all_writes (calls p wss m1 r1))"
    and b: "length (reported (calls p wss m1 r1)) = total_returned (calls p wss m1 r1)"
    by blast+
  show ?case
    unfolding cs reported_Cons all_writes_Cons total_returned_Cons a
    using b [unfolded a] by simp
qed

lemma unat_plus_of_nat: "unat ((S::u64) + word_of_nat n) = (unat S + n) mod 2 ^ 64"
proof -
  have "unat (S + word_of_nat n) = (unat S + unat (word_of_nat n :: u64)) mod 2 ^ 64"
    by (simp add: unat_word_ariths)
  also have "\<dots> = (unat S + n mod 2 ^ 64) mod 2 ^ 64" by (simp add: unat_of_nat)
  also have "\<dots> = (unat S + n) mod 2 ^ 64" by (simp only: mod_add_right_eq)
  finally show ?thesis .
qed

text \<open>
  C2. Without jitter and as long as no write fails, in a session opened with start
  value \<open>S\<close> the \<open>n\<close>-th event reported to the host carries the sample \<open>S + n\<close> of
  \<open>uint64\<close> arithmetic, which is \<open>(S + n) mod 2^64\<close>, whatever the sizes of the batches;
  the events reported are those counted by the return values. When that sample is
  below \<open>2^63\<close> the payload is its decimal rendering and field 1 of \<open>Extract\<close> reads it
  back.
\<close>

theorem zero_jitter_determinism:
  assumes "jitter p = 0" and "Open prms (Inr obj) = Inr m" and "obj ''start'' = Some S"
    and "\<forall>evts\<in>set wss. \<forall>w\<in>set evts. w = Accepts"
    and "1 \<le> n" and "n \<le> length (reported (calls p wss m r))"
  shows "length (reported (calls p wss m r)) = total_returned (calls p wss m r)
       \<and> unat (S + word_of_nat n) = (unat S + n) mod 2 ^ 64
       \<and> ((unat S + n) mod 2 ^ 64 < 2 ^ 63 \<longrightarrow>
            reported (calls p wss m r) ! (n - 1) = FormatUint ((unat S + n) mod 2 ^ 64)
            \<and> Extract \<lparr>FieldID = 1, Field = f, Arg = a\<rparr> (Inr (reported (calls p wss m r) ! (n - 1)))
                = SetValue (U64 (S + word_of_nat n)))"
proof -
  from Open_fields(2) [OF assms(2)] assms(3) have S: "sample m = S" by simp
  note ra = calls_zero_jitter_accept [OF assms(1,4), of m r]
  from ra assms(5,6) have i: "n - 1 < length (all_writes (calls p wss m r))" and n: "Suc (n - 1) = n"
    by simp_all
  from calls_zero_jitter [OF assms(1), of wss m r] i n
  have "fst (all_writes (calls p wss m r) ! (n - 1)) = Itoa (sint (S + word_of_nat n))"
    unfolding S by metis
  with ra i have pl: "reported (calls p wss m r) ! (n - 1) = Itoa (sint (S + word_of_nat n))"
    by simp
  have 3: "reported (calls p wss m r) ! (n - 1) = FormatUint ((unat S + n) mod 2 ^ 64)
            \<and> Extract \<lparr>FieldID = 1, Field = f, Arg = a\<rparr> (Inr (reported (calls p wss m r) ! (n - 1)))
                = SetValue (U64 (S + word_of_nat n))"
    if "(unat S + n) mod 2 ^ 64 < 2 ^ 63"
  proof -
    from that have "unat (S + word_of_nat n) < 2 ^ 63" by (simp only: unat_plus_of_nat)
    then have "Itoa (sint (S + word_of_nat n)) = FormatUint (unat (S + word_of_nat n))"
      by (simp only: Itoa_sint_u64 if_True)
    then have it: "Itoa (sint (S + word_of_nat n)) = FormatUint ((unat S + n) mod 2 ^ 64)"
      by (simp only: unat_plus_of_nat)
    have "Extract \<lparr>FieldID = 1, Field = f, Arg = a\<rparr> (Inr (Itoa (sint (S + word_of_nat n))))
        = SetValue (U64 (S + word_of_nat n))"
      by (rule Extract_value_of_rendering)
    then show ?thesis unfolding pl it by simp
  qed
  from ra unat_plus_of_nat [of S n] 3 show ?thesis by blast
qed

theorem zero_jitter_determinism_witness:
  \<open>jitter \<lparr>jitter = 0\<rparr> = 0
   \<and> Open ''{"start": 18446744073709551614, "maxEvents": 3}''
         (Inr [''start'' \<mapsto> 18446744073709551614, ''maxEvents'' \<mapsto> 3])
       = Inr \<lparr>initParams = ''{"start": 18446744073709551614, "maxEvents": 3}'', maxEvents = 3,
               counter = 0, sample = 18446744073709551614\<rparr>
   \<and> reported (calls \<lparr>jitter = 0\<rparr> [[Accepts], [Accepts, Accepts], [Accepts]]
        \<lparr>initParams = ''{"start": 18446744073709551614, "maxEvents": 3}'', maxEvents = 3,
          counter = 0, sample = 18446744073709551614\<rparr> (\<lambda>i. i))
       = [''-1'', ''0'', ''1'']
   \<and> (unat (18446744073709551614 :: u64) + 3) mod 2 ^ 64 = 1
   \<and> FormatUint 1 = ''1''
   \<and> Extract \<lparr>FieldID = 1, Field = ''dummy.value'', Arg = ''''\<rparr> (Inr ''1'') = SetValue (U64 1)\<close>
proof -
  let ?prms = \<open>''{"start": 18446744073709551614, "maxEvents": 3}''\<close>
  let ?m = "\<lparr>initParams = ?prms, maxEvents = 3, counter = 0, sample = 18446744073709551614\<rparr>"
  let ?wss = "[[Accepts], [Accepts, Accepts], [Accepts]]"
  have j: "jitter \<lparr>jitter = 0\<rparr> = 0" by simp
  have op: "Open ?prms (Inr [''start'' \<mapsto> 18446744073709551614, ''maxEvents'' \<mapsto> 3]) = Inr ?m"
    by (simp add: Open_def)
  have st: "[''start'' \<mapsto> 18446744073709551614, ''maxEvents'' \<mapsto> (3::u64)] ''start''
      = Some 18446744073709551614" by simp
  have acc: "\<forall>evts\<in>set ?wss. \<forall>w\<in>set evts. w = Accepts" by simp
  have w: "reported (calls \<lparr>jitter = 0\<rparr> ?wss ?m (\<lambda>i. i)) = [''-1'', ''0'', ''1'']"
    by (simp add: reported_def NextBatch_def produce_def Int63n_def Int63_def Itoa_def
        FormatUint.simps digit_char_def word_le_nat_alt word_less_nat_alt)
  have n: "(1::nat) \<le> 3" "3 \<le> length (reported (calls \<lparr>jitter = 0\<rparr> ?wss ?m (\<lambda>i. i)))"
    unfolding w by simp_all
  have v: "(unat (18446744073709551614 :: u64) + 3) mod 2 ^ 64 = 1" by simp
  have f1: "FormatUint 1 = ''1''" by (simp add: FormatUint.simps digit_char_def)
  note t = zero_jitter_determinism [OF j op st acc n, of "''dummy.value''" "''''"]
  have lt: "(unat (18446744073709551614 :: u64) + 3) mod 2 ^ 64 < 2 ^ 63" by simp
  from t lt have "Extract \<lparr>FieldID = 1, Field = ''dummy.value'', Arg = ''''\<rparr>
        (Inr (reported (calls \<lparr>jitter = 0\<rparr> ?wss ?m (\<lambda>i. i)) ! (3 - 1)))
      = SetValue (U64 (18446744073709551614 + word_of_nat 3))"
    by blast
  then have e1: "Extract \<lparr>FieldID = 1, Field = ''dummy.value'', Arg = ''''\<rparr> (Inr ''1'') = SetValue (U64 1)"
    unfolding w by simp
  from j op w v f1 e1 show ?thesis by blast
qed

text \<open>
  A session opened with \<open>start = 2^64 - 1\<close>: the first event reported has the payload
  \<open>0\<close>, which is not the rendering of \<open>S + 1 = 2^64\<close> and decodes to the sample 0.
\<close>

theorem zero_jitter_determinism_counterexample:
  \<open>Open ''{"start": 18446744073709551615, "maxEvents": 2}''
         (Inr [''start'' \<mapsto> 18446744073709551615, ''maxEvents'' \<mapsto> 2])
       = Inr \<lparr>initParams = ''{"start": 18446744073709551615, "maxEvents": 2}'', maxEvents = 2,
               counter = 0, sample = 18446744073709551615\<rparr>
   \<and> reported (calls \<lparr>jitter = 0\<rparr> [[Accepts, Accepts]]
        \<lparr>initParams = ''{"start": 18446744073709551615, "maxEvents": 2}'', maxEvents = 2,
          counter = 0, sample = 18446744073709551615\<rparr> (\<lambda>i. 0))
       = [''0'', ''1'']
   \<and> unat (18446744073709551615 :: u64) + 1 = 18446744073709551616
   \<and> FormatUint 18446744073709551616 = ''18446744073709551616''
   \<and> ''0'' \<noteq> ''18446744073709551616''
   \<and> Extract \<lparr>FieldID = 1, Field = ''dummy.value'', Arg = ''''\<rparr> (Inr ''0'') = SetValue (U64 0)\<close>
  by (simp add: Open_def reported_def NextBatch_def produce_def Int63n_def Int63_def Itoa_def
      FormatUint.simps digit_char_def word_le_nat_alt word_less_nat_alt Extract_def Atoi_def
      ParseUint_def is_digit_def digit_val_def)


section \<open>Counting the events of a session\<close>

lemma produce_Accepts:
  assumes "produce p Accepts m r = (m1, r1, tr1, st)"
  shows "st \<noteq> StepWriteErr \<and> (st = StepOk \<longrightarrow> (\<exists>pl. tr1 = [(pl, True)]))"
  using assms by (auto simp: produce_def Let_def split: Drawn.splits)

lemma batch_loop_all_accept:
  assumes "\<forall>w\<in>set evts. w = Accepts" and "counter m \<le> maxEvents m"
    and "batch_loop p evts n m r = (m', r', tr, Return k e)"
  shows "e = None
       \<and> k = n + min (length evts) (unat (maxEvents m) - unat (counter m))
       \<and> unat (counter m') = unat (counter m) + min (length evts) (unat (maxEvents m) - unat (counter m))
       \<and> length tr = min (length evts) (unat (maxEvents m) - unat (counter m))
       \<and> (\<forall>x\<in>set tr. snd x)"
  using assms
proof (induction evts arbitrary: n m r m' r' tr)
  case Nil
  then show ?case by simp
next
  case (Cons evt evts)
  from Cons.prems(1) have acc: "evt = Accepts" "\<forall>w\<in>set evts. w = Accepts" by simp_all
  show ?case
  proof (cases "counter m < maxEvents m")
    case False
    with Cons.prems(2) have "counter m = maxEvents m" by simp
    with Cons.prems(3) False show ?thesis by simp
  next
    case True
    then have lt: "unat (counter m) < unat (maxEvents m)" by (simp add: word_less_nat_alt)
    obtain m1 r1 tr1 st where pr: "produce p evt m r = (m1, r1, tr1, st)"
      by (metis prod_cases4)
    note f = produce_fields [OF pr]
    from produce_Accepts [OF pr [unfolded acc(1)]] have pa: "st \<noteq> StepWriteErr"
      "st = StepOk \<longrightarrow> (\<exists>pl. tr1 = [(pl, True)])" by blast+
    from Cons.prems(3) True pr pa(1) have st: "st = StepOk" by (cases st) simp_all
    with pa(2) obtain pl where tr1: "tr1 = [(pl, True)]" by blast
    obtain m2 r2 tr2 ret2 where bl: "batch_loop p evts (n + 1) m1 r1 = (m2, r2, tr2, ret2)"
      by (metis prod_cases4)
    from Cons.prems(3) True pr st bl have e: "m' = m2" "tr = tr1 @ tr2" "ret2 = Return k e"
      by simp_all
    have c1: "unat (counter m1) = unat (counter m) + 1" "maxEvents m1 = maxEvents m"
      using unat_counter_succ [OF True] f by simp_all
    have le1: "counter m1 \<le> maxEvents m1" by (rule produce_keeps_bound [OF pr True])
    note ih = Cons.IH [OF acc(2) le1 bl [unfolded e(3)]]
    have km: "min (length (evt # evts)) (unat (maxEvents m) - unat (counter m))
        = 1 + min (length evts) (unat (maxEvents m1) - unat (counter m1))"
      using lt c1 by simp
    from ih show ?thesis unfolding e(1,2) tr1 km c1 by simp
  qed
qed

lemma NextBatch_all_accept:
  assumes "\<forall>w\<in>set evts. w = Accepts" and "counter m \<le> maxEvents m"
    and "NextBatch p evts m r = (m', r', tr, Return k e)"
  shows "e \<noteq> Some ErrWrite
       \<and> k = min (length evts) (unat (maxEvents m) - unat (counter m))
       \<and> unat (counter m') = unat (counter m) + k
       \<and> maxEvents m' = maxEvents m \<and> counter m' \<le> maxEvents m'"
proof (cases "maxEvents m \<le> counter m")
  case True
  then have "unat (maxEvents m) - unat (counter m) = 0" by (simp add: word_le_nat_alt)
  with True assms(2,3) show ?thesis by (auto simp: NextBatch_def)
next
  case False
  with assms(3) have bl: "batch_loop p evts 0 m r = (m', r', tr, Return k e)"
    by (simp add: NextBatch_def)
  from batch_loop_all_accept [OF assms(1,2) bl] batch_loop_inv [OF bl assms(2)]
  show ?thesis by auto
qed

lemma calls_all_accept:
  assumes "\<forall>evts\<in>set wss. \<forall>w\<in>set evts. w = Accepts" and "counter m \<le> maxEvents m"
    and "\<forall>(m', tr, ret)\<in>set (calls p wss m r). ret \<noteq> Panic \<and> ret \<noteq> Never"
  shows "total_returned (calls p wss m r)
           = min (sum_list (map length wss)) (unat (maxEvents m) - unat (counter m))"
  using assms
proof (induction wss arbitrary: m r)
  case Nil
  show ?case by (simp add: total_returned_def)
next
  case (Cons evts wss)
  from Cons.prems(1) have acc: "\<forall>w\<in>set evts. w = Accepts"
    "\<forall>evts\<in>set wss. \<forall>w\<in>set evts. w = Accepts" by simp_all
  obtain m1 r1 tr1 ret1 where nb: "NextBatch p evts m r = (m1, r1, tr1, ret1)"
    by (metis prod_cases4)
  from Cons.prems(3) nb obtain k e where ret1: "ret1 = Return k e"
    by (cases ret1) auto
  note cs = calls_Cons_Return [OF nb [unfolded ret1]]
  note a = NextBatch_all_accept [OF acc(1) Cons.prems(2) nb [unfolded ret1]]
  define K where "K = unat (maxEvents m) - unat (counter m)"
  define S where "S = sum_list (map length wss)"
  define L where "L = length evts"
  from a have le1: "counter m1 \<le> maxEvents m1" by blast
  from a have c1: "unat (counter m1) = unat (counter m) + min L K" "maxEvents m1 = maxEvents m"
    "k = min L K" unfolding K_def L_def by auto
  from Cons.prems(3) have rest: "\<forall>(m', tr, ret)\<in>set (calls p wss m1 r1). ret \<noteq> Panic \<and> ret \<noteq> Never"
    unfolding cs by simp
  have K1: "unat (maxEvents m1) - unat (counter m1) = K - min L K"
    unfolding c1 K_def by simp
  have ar: "min L K + min S (K - min L K) = min (L + S) K" by simp
  from Cons.IH [OF acc(2) le1 rest] have "total_returned (calls p wss m1 r1) = min S (K - min L K)"
    unfolding K1 S_def by simp
  then show ?case
    unfolding cs total_returned_Cons returned.simps c1(3) K_def [symmetric]
    using ar by (simp add: S_def L_def)
qed

lemma exhaustion_when_calls_return:
  assumes "Open prms (Inr obj) = Inr m"
    and "\<forall>evts\<in>set wss. \<forall>w\<in>set evts. w = Accepts"
    and "\<forall>(m', tr, ret)\<in>set (calls p wss m r). ret \<noteq> Panic \<and> ret \<noteq> Never"
  shows "total_returned (calls p wss m r) = min (unat (maxEvents m)) (sum_list (map length wss))"
proof -
  from Open_fields(1) [OF assms(1)] have c0: "counter m = 0" .
  then have le: "counter m \<le> maxEvents m" by simp
  from calls_all_accept [OF assms(2) le assms(3)] c0 show ?thesis
    by (simp add: min.commute)
qed


text \<open>
  C1. A session does not always report \<open>maxEvents\<close> events. With the jitter \<open>2^64 - 1\<close>,
  which \<open>Init\<close> accepts, \<open>jitter + 1\<close> wraps around to 0 and \<open>Int63n\<close> panics in the first
  production, after the counter was incremented: a session opened with \<open>maxEvents = 1\<close>
  and called with one working writer reports no event.
\<close>

theorem large_jitter_panics:
  \<open>Init ''{"jitter": 18446744073709551615}'' (Inr [''jitter'' \<mapsto> 18446744073709551615])
       = Inr \<lparr>jitter = 18446744073709551615\<rparr>
   \<and> Open ''{"start": 0, "maxEvents": 1}'' (Inr [''start'' \<mapsto> 0, ''maxEvents'' \<mapsto> 1])
       = Inr \<lparr>initParams = ''{"start": 0, "maxEvents": 1}'', maxEvents = 1, counter = 0, sample = 0\<rparr>
   \<and> map (\<lambda>(m, tr, ret). (counter m, sample m, tr, ret))
         (calls \<lparr>jitter = 18446744073709551615\<rparr> [[Accepts]]
            \<lparr>initParams = ''{"start": 0, "maxEvents": 1}'', maxEvents = 1, counter = 0, sample = 0\<rparr> (\<lambda>i. 0))
       = [(1, 0, [], Panic)]
   \<and> total_returned
         (calls \<lparr>jitter = 18446744073709551615\<rparr> [[Accepts]]
            \<lparr>initParams = ''{"start": 0, "maxEvents": 1}'', maxEvents = 1, counter = 0, sample = 0\<rparr> (\<lambda>i. 0))
       = 0
   \<and> total_returned
         (calls \<lparr>jitter = 18446744073709551615\<rparr> [[Accepts]]
            \<lparr>initParams = ''{"start": 0, "maxEvents": 1}'', maxEvents = 1, counter = 0, sample = 0\<rparr> (\<lambda>i. 0))
       \<noteq> unat (1 :: u64)\<close>
  by (simp add: Init_def Open_def total_returned_def NextBatch_def produce_def Int63n_def Int63_def
      word_le_nat_alt word_less_nat_alt)


section \<open>The sample along a session\<close>

lemma produce_sample_step:
  assumes "produce p evt m r = (m1, r1, tr1, st)"
  shows "\<exists>d. sample m1 = sample m + word_of_nat d \<and> d \<le> unat (jitter p) + 1"
proof (cases "unat (jitter p) + 1 < 2 ^ 63")
  case True
  from produce_cases [OF True, of evt m r] show ?thesis
  proof
    assume "produce p evt m r = (m\<lparr>counter := counter m + 1\<rparr>, r, [], StepNever)"
    with assms have "sample m1 = sample m + word_of_nat 0" by auto
    then show ?thesis by blast
  next
    assume "\<exists>d r'. d \<le> unat (jitter p)
            \<and> produce p evt m r =
                (m\<lparr>counter := counter m + 1, sample := sample m + (1 + word_of_nat d)\<rparr>, r',
                 [(Itoa (sint (sample m + (1 + word_of_nat d))), evt = Accepts)],
                 if evt = Accepts then StepOk else StepWriteErr)"
    then obtain d r' where d: "d \<le> unat (jitter p)"
      and pr: "produce p evt m r =
                (m\<lparr>counter := counter m + 1, sample := sample m + (1 + word_of_nat d)\<rparr>, r',
                 [(Itoa (sint (sample m + (1 + word_of_nat d))), evt = Accepts)],
                 if evt = Accepts then StepOk else StepWriteErr)" by blast
    from assms have "sample m1 = sample m + word_of_nat (1 + d)" unfolding pr by auto
    with d show ?thesis by (intro exI [of _ "1 + d"]) simp
  qed
next
  case False
  from assms have "sample m1 = sample m + word_of_nat 0"
    unfolding produce_panic [OF False] by auto
  then show ?thesis by blast
qed

lemma batch_loop_sample:
  assumes "batch_loop p evts n m r = (m', r', tr, ret)" and "counter m \<le> maxEvents m"
  shows "\<exists>d. sample m' = sample m + word_of_nat d
             \<and> d \<le> (unat (counter m') - unat (counter m)) * (unat (jitter p) + 1)"
  using assms
proof (induction evts arbitrary: n m r m' r' tr ret)
  case Nil
  then have "sample m' = sample m + word_of_nat 0" by simp
  then show ?case by blast
next
  case (Cons evt evts)
  define J where "J = unat (jitter p) + 1"
  show ?case
  proof (cases "counter m < maxEvents m")
    case False
    with Cons.prems have "sample m' = sample m + word_of_nat 0" by simp
    then show ?thesis by blast
  next
    case True
    obtain m1 r1 tr1 st where pr: "produce p evt m r = (m1, r1, tr1, st)"
      by (metis prod_cases4)
    note f = produce_fields [OF pr]
    have le: "counter m1 \<le> maxEvents m1" by (rule produce_keeps_bound [OF pr True])
    have c1: "unat (counter m1) = unat (counter m) + 1"
      using unat_counter_succ [OF True] f by simp
    from produce_sample_step [OF pr] obtain d1 where
      d1: "sample m1 = sample m + word_of_nat d1" "d1 \<le> J" unfolding J_def by blast
    show ?thesis
    proof (cases st)
      case StepOk
      obtain m2 r2 tr2 ret2 where bl: "batch_loop p evts (n + 1) m1 r1 = (m2, r2, tr2, ret2)"
        by (metis prod_cases4)
      from Cons.prems(1) True pr StepOk bl have e: "m' = m2" by simp
      from Cons.IH [OF bl le] obtain d2 where
        d2: "sample m2 = sample m1 + word_of_nat d2"
          "d2 \<le> (unat (counter m2) - unat (counter m1)) * J" unfolding J_def by blast
      from batch_loop_inv [OF bl le] have ge: "unat (counter m1) \<le> unat (counter m2)" by simp
      have "sample m' = sample m + word_of_nat (d1 + d2)"
        unfolding e d2(1) d1(1) by simp
      moreover have "d1 + d2 \<le> (unat (counter m') - unat (counter m)) * J"
      proof -
        have "d1 + d2 \<le> J + (unat (counter m2) - unat (counter m1)) * J"
          using d1(2) d2(2) by simp
        also have "\<dots> = (1 + (unat (counter m2) - unat (counter m1))) * J" by simp
        also have "1 + (unat (counter m2) - unat (counter m1)) = unat (counter m2) - unat (counter m)"
          using ge c1 by simp
        finally show ?thesis unfolding e .
      qed
      ultimately show ?thesis unfolding J_def by blast
    next
      case StepWriteErr
      with Cons.prems(1) True pr have e: "m' = m1" by simp
      from d1 c1 show ?thesis unfolding e J_def by auto
    next
      case StepPanic
      with Cons.prems(1) True pr have e: "m' = m1" by simp
      from d1 c1 show ?thesis unfolding e J_def by auto
    next
      case StepNever
      with Cons.prems(1) True pr have e: "m' = m1" by simp
      from d1 c1 show ?thesis unfolding e J_def by auto
    qed
  qed
qed

lemma NextBatch_sample:
  assumes "NextBatch p evts m r = (m', r', tr, ret)" and "counter m \<le> maxEvents m"
  shows "\<exists>d. sample m' = sample m + word_of_nat d
             \<and> d \<le> (unat (counter m') - unat (counter m)) * (unat (jitter p) + 1)"
proof (cases "maxEvents m \<le> counter m")
  case True
  with assms(1) have "sample m' = sample m + word_of_nat 0" by (simp add: NextBatch_def)
  then show ?thesis by blast
next
  case False
  with assms(1) have "batch_loop p evts 0 m r = (m', r', tr, ret)" by (simp add: NextBatch_def)
  from batch_loop_sample [OF this assms(2)] show ?thesis .
qed

lemma NextBatch_monotone:
  assumes "NextBatch p evts m r = (m', r', tr, ret)" and "counter m \<le> maxEvents m"
    and "unat (sample m) + (unat (maxEvents m) - unat (counter m)) * (unat (jitter p) + 1) < 2 ^ 64"
  shows "sample m \<le> sample m'
       \<and> unat (sample m') + (unat (maxEvents m') - unat (counter m')) * (unat (jitter p) + 1) < 2 ^ 64"
proof -
  define J where "J = unat (jitter p) + 1"
  define c where "c = unat (counter m)"
  define c' where "c' = unat (counter m')"
  define M where "M = unat (maxEvents m)"
  from NextBatch_inv [OF assms(1,2)] have i: "c' \<le> M" "maxEvents m' = maxEvents m" "c \<le> c'"
    unfolding c_def c'_def M_def by (auto simp: word_le_nat_alt)
  from NextBatch_sample [OF assms(1,2)] obtain d where
    d: "sample m' = sample m + word_of_nat d" "d \<le> (c' - c) * J"
    unfolding J_def c_def c'_def by blast
  have split: "(c' - c) * J + (M - c') * J = (M - c) * J"
    using i by (simp add: add_mult_distrib [symmetric])
  from assms(3) have nw: "unat (sample m) + (M - c) * J < 2 ^ 64"
    unfolding J_def c_def M_def .
  from d(2) split nw have dlt: "unat (sample m) + d < 2 ^ 64" by linarith
  then have "d < 2 ^ 64" by simp
  then have ud: "unat (word_of_nat d :: u64) = d" by (rule unat_of_nat_u64)
  have "unat (sample m) + unat (word_of_nat d :: u64) < 2 ^ LENGTH(64)"
    unfolding ud using dlt by simp
  then have "unat (sample m + word_of_nat d) = unat (sample m) + unat (word_of_nat d :: u64)"
    by (simp only: unat_add_lem)
  then have us: "unat (sample m') = unat (sample m) + d" unfolding d(1) ud .
  then have "sample m \<le> sample m'" by (simp add: word_le_nat_alt)
  moreover have "unat (sample m') + (M - c') * J < 2 ^ 64"
    unfolding us using d(2) split nw by linarith
  ultimately show ?thesis unfolding J_def c'_def M_def i(2) by simp
qed

lemma calls_monotone:
  assumes "counter m \<le> maxEvents m"
    and "unat (sample m) + (unat (maxEvents m) - unat (counter m)) * (unat (jitter p) + 1) < 2 ^ 64"
  shows "sorted (map sample (m # map fst (calls p wss m r)))"
  using assms
proof (induction wss arbitrary: m r)
  case Nil
  show ?case by simp
next
  case (Cons evts wss)
  obtain m1 r1 tr1 ret1 where nb: "NextBatch p evts m r = (m1, r1, tr1, ret1)"
    by (metis prod_cases4)
  note mono = NextBatch_monotone [OF nb Cons.prems]
  from NextBatch_inv [OF nb Cons.prems(1)] have le1: "counter m1 \<le> maxEvents m1" by blast
  show ?case
  proof (cases ret1)
    case Panic
    from mono show ?thesis
      unfolding calls_Cons_Panic [OF nb [unfolded Panic]] by simp
  next
    case Never
    from mono show ?thesis
      unfolding calls_Cons_Never [OF nb [unfolded Never]] by simp
  next
    case (Return k e)
    from mono have "unat (sample m1) + (unat (maxEvents m1) - unat (counter m1)) * (unat (jitter p) + 1) < 2 ^ 64"
      by simp
    from Cons.IH [OF le1 this, of r1]
    have "sorted (sample m1 # map sample (map fst (calls p wss m1 r1)))" by simp
    with mono have "sorted (sample m # sample m1 # map sample (map fst (calls p wss m1 r1)))"
      by (simp only: sorted2 simp_thms)
    then show ?thesis
      unfolding calls_Cons_Return [OF nb [unfolded Return]] by (simp only: list.map fst_conv)
  qed
qed

text \<open>
  C7. In a session created by \<open>Open\<close>, after every call of any sequence of \<open>NextBatch\<close>
  calls the counter is at most \<open>maxEvents\<close>, which never changes; a production step
  started below \<open>maxEvents\<close> keeps the counter at most \<open>maxEvents\<close>; and when
  \<open>start + maxEvents * (jitter + 1) < 2^64\<close>, so that no addition to the sample wraps
  around, the samples after the successive calls never decrease.
\<close>

theorem session_invariants:
  assumes "Open prms (Inr obj) = Inr m"
  shows "(\<forall>(m', tr, ret)\<in>set (calls p wss m r). counter m' \<le> maxEvents m' \<and> maxEvents m' = maxEvents m)
       \<and> (\<forall>evt (m0::MyInstance) r0. counter m0 < maxEvents m0 \<longrightarrow>
            counter (fst (produce p evt m0 r0)) \<le> maxEvents (fst (produce p evt m0 r0)))
       \<and> (unat (sample m) + unat (maxEvents m) * (unat (jitter p) + 1) < 2 ^ 64 \<longrightarrow>
            sorted (map sample (m # map fst (calls p wss m r))))"
proof -
  from Open_fields(1) [OF assms] have c0: "counter m = 0" .
  then have le: "counter m \<le> maxEvents m" by simp
  have 1: "\<forall>(m', tr, ret)\<in>set (calls p wss m r). counter m' \<le> maxEvents m' \<and> maxEvents m' = maxEvents m"
    using calls_inv [OF le] by blast
  have 2: "\<forall>evt (m0::MyInstance) r0. counter m0 < maxEvents m0 \<longrightarrow>
            counter (fst (produce p evt m0 r0)) \<le> maxEvents (fst (produce p evt m0 r0))"
  proof (intro allI impI)
    fix evt and m0 :: MyInstance and r0 assume lt: "counter m0 < maxEvents m0"
    obtain m1 r1 tr1 st where pr: "produce p evt m0 r0 = (m1, r1, tr1, st)"
      by (metis prod_cases4)
    from produce_keeps_bound [OF pr lt] show
      "counter (fst (produce p evt m0 r0)) \<le> maxEvents (fst (produce p evt m0 r0))"
      unfolding pr by simp
  qed
  have 3: "sorted (map sample (m # map fst (calls p wss m r)))"
    if "unat (sample m) + unat (maxEvents m) * (unat (jitter p) + 1) < 2 ^ 64"
    using calls_monotone [OF le, of p wss r] that c0 by simp
  from 1 2 3 show ?thesis by blast
qed

theorem session_invariants_witness:
  \<open>Open ''{"start": 5, "maxEvents": 3}'' (Inr [''start'' \<mapsto> 5, ''maxEvents'' \<mapsto> 3])
       = Inr \<lparr>initParams = ''{"start": 5, "maxEvents": 3}'', maxEvents = 3, counter = 0, sample = 5\<rparr>
   \<and> unat (5 :: u64) + unat (3 :: u64) * (unat (jitter \<lparr>jitter = 3\<rparr>) + 1) < 2 ^ 64
   \<and> sorted (map sample
         (\<lparr>initParams = ''{"start": 5, "maxEvents": 3}'', maxEvents = 3, counter = 0, sample = 5\<rparr>
          # map fst (calls \<lparr>jitter = 3\<rparr> [[Accepts, Fails], [Accepts], [Accepts]]
              \<lparr>initParams = ''{"start": 5, "maxEvents": 3}'', maxEvents = 3, counter = 0, sample = 5\<rparr>
              (\<lambda>i. i))))
   \<and> map (\<lambda>(m, tr, ret). (counter m, sample m))
         (calls \<lparr>jitter = 3\<rparr> [[Accepts, Fails], [Accepts], [Accepts]]
            \<lparr>initParams = ''{"start": 5, "maxEvents": 3}'', maxEvents = 3, counter = 0, sample = 5\<rparr>
            (\<lambda>i. i))
       = [(2, 8), (3, 11), (3, 11)]\<close>
proof -
  let ?prms = \<open>''{"start": 5, "maxEvents": 3}''\<close>
  let ?m = "\<lparr>initParams = ?prms, maxEvents = 3, counter = 0, sample = 5\<rparr>"
  have op: "Open ?prms (Inr [''start'' \<mapsto> 5, ''maxEvents'' \<mapsto> 3]) = Inr ?m"
    by (simp add: Open_def)
  have nw: "unat (5 :: u64) + unat (3 :: u64) * (unat (jitter \<lparr>jitter = 3\<rparr>) + 1) < 2 ^ 64"
    by simp
  then have nw': "unat (sample ?m) + unat (maxEvents ?m) * (unat (jitter \<lparr>jitter = 3\<rparr>) + 1) < 2 ^ 64"
    by simp
  from session_invariants [OF op, of "\<lparr>jitter = 3\<rparr>" "[[Accepts, Fails], [Accepts], [Accepts]]" "\<lambda>i. i"] nw'
  have so: "sorted (map sample (?m # map fst (calls \<lparr>jitter = 3\<rparr> [[Accepts, Fails], [Accepts], [Accepts]] ?m (\<lambda>i. i))))"
    by blast
  have ev: "map (\<lambda>(m, tr, ret). (counter m, sample m))
         (calls \<lparr>jitter = 3\<rparr> [[Accepts, Fails], [Accepts], [Accepts]] ?m (\<lambda>i. i))
       = [(2, 8), (3, 11), (3, 11)]"
    by (simp add: NextBatch_def produce_def Int63n_def Int63_def word_le_nat_alt word_less_nat_alt)
  from op nw so ev show ?thesis by blast
qed

text \<open>
  A session opened with \<open>start = 2^64 - 1\<close>: the first production wraps the sample
  around to 0.
\<close>

theorem sample_wraps_counterexample:
  \<open>Open ''{"start": 18446744073709551615, "maxEvents": 1}''
       (Inr [''start'' \<mapsto> 18446744073709551615, ''maxEvents'' \<mapsto> 1])
       = Inr \<lparr>initParams = ''{"start": 18446744073709551615, "maxEvents": 1}'', maxEvents = 1,
               counter = 0, sample = 18446744073709551615\<rparr>
   \<and> map (\<lambda>(m, tr, ret). (counter m, sample m, tr, ret))
         (calls \<lparr>jitter = 0\<rparr> [[Accepts]]
            \<lparr>initParams = ''{"start": 18446744073709551615, "maxEvents": 1}'', maxEvents = 1,
              counter = 0, sample = 18446744073709551615\<rparr> (\<lambda>i. 0))
       = [(1, 0, [(''0'', True)], Return 1 None)]
   \<and> \<not> (18446744073709551615 :: u64) \<le> 0\<close>
  by (simp add: Open_def NextBatch_def produce_def Int63n_def Int63_def Itoa_def FormatUint.simps
      digit_char_def word_le_nat_alt word_less_nat_alt)


section \<open>Write failures and the rendering of large samples\<close>

lemma produce_payload:
  assumes "produce p evt m r = (m', r', tr, st)" and "st = StepOk \<or> st = StepWriteErr"
  shows "map fst tr =
     [if unat (sample m') < 2 ^ 63 then FormatUint (unat (sample m'))
      else CHR ''-'' # FormatUint (2 ^ 64 - unat (sample m'))]"
proof -
  from produce_completes [OF assms] obtain d where
    "m' = m\<lparr>counter := counter m + 1, sample := sample m + (1 + word_of_nat d)\<rparr>"
    and "tr = [(Itoa (sint (sample m + (1 + word_of_nat d))), evt = Accepts)]" by blast
  then show ?thesis by (simp add: Itoa_sint_u64)
qed

lemma write_failure_counts:
  assumes "counter m < maxEvents m" and "NextBatch p (Fails # evts) m r = (m', r', tr, ret)"
  shows "counter m' = counter m + 1 \<and> returned ret = 0"
proof -
  from assms(1) have "\<not> maxEvents m \<le> counter m" by simp
  with assms show ?thesis
    by (auto simp: NextBatch_def produce_def Let_def split: Drawn.splits)
qed

text \<open>
  C4. A write failure does not leave the session as it was after the last event that
  was written. In a session with \<open>maxEvents = 2\<close> and no jitter, a call with two
  writers of which the second fails returns \<open>(0, error)\<close>: the event written to the first
  writer is not reported, the counter is 2 and the sample is 2, so both productions
  are counted. The retried call returns \<open>ErrEOF\<close>: the session reports no event at all.
\<close>

theorem write_failure_advances_session:
  "map (\<lambda>(m, tr, ret). (counter m, sample m, tr, ret))
     (calls \<lparr>jitter = 0\<rparr> [[Accepts, Fails], [Accepts]]
        \<lparr>initParams = prms, maxEvents = 2, counter = 0, sample = 0\<rparr> r)
     = [(2, 2, [(''1'', True), (''2'', False)], Return 0 (Some ErrWrite)),
        (2, 2, [], Return 0 (Some ErrEOF))]
   \<and> total_returned
       (calls \<lparr>jitter = 0\<rparr> [[Accepts, Fails], [Accepts]]
          \<lparr>initParams = prms, maxEvents = 2, counter = 0, sample = 0\<rparr> r) = 0"
  by (simp add: total_returned_def NextBatch_def produce_def Int63n_def Int63_def Itoa_def FormatUint.simps
      digit_char_def word_le_nat_alt word_less_nat_alt)

text \<open>
  C8. The payload is the rendering of the sample converted to a signed integer. In a
  session opened with \<open>start = 2^63 - 2\<close> and no jitter, the second event carries the
  sample \<open>2^63\<close> and its payload is \<open>-9223372036854775808\<close>, with a sign.
\<close>

theorem payload_signed_rendering:
  "map (\<lambda>(m, tr, ret). (sample m, tr, ret))
     (calls \<lparr>jitter = 0\<rparr> [[Accepts, Accepts]]
        \<lparr>initParams = prms, maxEvents = 2, counter = 0, sample = 9223372036854775806\<rparr> r)
     = [(9223372036854775808,
         [(''9223372036854775807'', True), (''-9223372036854775808'', True)], Return 2 None)]"
  by (simp add: NextBatch_def produce_def Int63n_def Int63_def Itoa_def FormatUint.simps
      digit_char_def word_le_nat_alt word_less_nat_alt)

end
